theory Spec2Isabelle
  imports Main "HOL-Library.Word"
begin

unbundle bit_operations_syntax

section \<open>Data model of msearch.go\<close>

text \<open>
  A Go \<open>string\<close> is a sequence of bytes; a \<open>byte\<close> is an 8-bit word, so that
  \<open>byte(len(value))\<close> and \<open>b[8] + 1 + 8\<close> wrap modulo 256 as they do in Go.
  Go's \<open>int\<close> is modelled by \<open>int\<close>; the one place where 64-bit wrap-around can
  be observed (decoding eight arbitrary bytes in \<open>bigUint64\<close>) writes it out.
\<close>

type_synonym byte = "8 word"
type_synonym gostring = "byte list"

definition bytes_of :: "string \<Rightarrow> gostring" where
  "bytes_of cs = map of_char cs"

definition notExist :: int where
  "notExist = - 1"

text \<open>
  The struct \<open>Msearch\<close>. \<open>bytesAddr\<close> is the shared mapping of the backing file:
  its length is the mapping length, and bytes that were never written read as zero.
  \<open>fpos\<close> is the position of the file handle \<open>f\<close>, where \<open>f.Write\<close> puts its
  bytes; it is operating-system state, not a field of the Go struct.
  The mutex is left out: every public operation runs under it from start to end.
\<close>

record msearch =
  offset :: int
  keyMap :: "gostring \<rightharpoonup> int"
  bytesAddr :: "byte list"
  fpos :: nat

text \<open>A run-time panic (index or slice bounds out of range) ends an operation.\<close>

datatype 'a result = Panic | Ok 'a

datatype error = ValueTooLarge | IoError

text \<open>What \<open>f.Write\<close> does: all bytes written, or an error after some of them.\<close>

datatype write_outcome = WriteOk | WriteFails nat

definition NewMsearch :: "nat \<Rightarrow> msearch" where
  "NewMsearch len = \<lparr>offset = 0, keyMap = Map.empty, bytesAddr = replicate len 0, fpos = 0\<rparr>"

section \<open>Bytes, slices and big-endian integers\<close>

text \<open>\<open>m[lo:hi]\<close> as a value, and \<open>copy(m[pos:], bs)\<close>, which stops at the end of \<open>m\<close>.\<close>

definition slice :: "byte list \<Rightarrow> nat \<Rightarrow> nat \<Rightarrow> byte list" where
  "slice m lo hi = take (hi - lo) (drop lo m)"

definition write_at :: "byte list \<Rightarrow> nat \<Rightarrow> byte list \<Rightarrow> byte list" where
  "write_at m pos bs = take (length m) (take pos m @ bs @ drop (pos + length bs) m)"

text \<open>The slice expression \<open>s.bytesAddr[lo:hi]\<close> panics unless \<open>0 \<le> lo \<le> hi \<le> cap\<close>.\<close>

definition in_bounds :: "byte list \<Rightarrow> int \<Rightarrow> int \<Rightarrow> bool" where
  "in_bounds m lo hi = (0 \<le> lo \<and> lo \<le> hi \<and> hi \<le> int (length m))"

text \<open>Conversion of a 64-bit pattern to Go's signed \<open>int\<close>.\<close>

definition go_int :: "int \<Rightarrow> int" where
  "go_int x = (x + 2 ^ 63) mod 2 ^ 64 - 2 ^ 63"

definition bigUint64 :: "byte list \<Rightarrow> int" where
  "bigUint64 buf =
     (if length buf > 8 then 0
      else foldl (\<lambda>x b. go_int (push_bit 8 x OR uint b)) 0 buf)"

text \<open>\<open>binary.BigEndian.PutUint64(b, uint64(v))\<close>: the eight bytes it stores.\<close>

definition putUint64 :: "int \<Rightarrow> byte list" where
  "putUint64 v =
     map (\<lambda>k. of_int (drop_bit k (take_bit 64 v))) [56, 48, 40, 32, 24, 16, 8, 0]"

text \<open>\<open>bigUint64(s.bytesAddr[offset : offset+8])\<close>.\<close>

definition read_total :: "byte list \<Rightarrow> int \<Rightarrow> int result" where
  "read_total m off =
     (if in_bounds m off (off + 8)
      then Ok (bigUint64 (slice m (nat off) (nat off + 8)))
      else Panic)"

section \<open>Reading: get and gets\<close>

text \<open>
  The loop of \<open>get\<close> over one record \<open>b = s.bytesAddr[offset : offset+total]\<close>;
  \<open>off\<close> is \<open>offset\<close>, \<open>lim\<close> is \<open>len(b) - 16\<close>. The slice \<open>b[i+1 : i+1+int(b[i])]\<close>
  may reach beyond \<open>len(b)\<close> up to the capacity of \<open>b\<close>, the end of the mapping.
\<close>

function get_loop :: "byte list \<Rightarrow> nat \<Rightarrow> nat \<Rightarrow> nat \<Rightarrow> gostring list \<Rightarrow> gostring list result" where
  "get_loop m off lim i list =
     (if i < lim then
        (if m ! (off + i) = 0 then get_loop m off lim (i + 1) list
         else
           (let bi = unat (m ! (off + i)) in
            if off + i + 1 + bi \<le> length m
            then get_loop m off lim (i + bi + 1) (list @ [slice m (off + i + 1) (off + i + 1 + bi)])
            else Panic))
      else Ok list)"
  by pat_completeness auto
termination
  by (relation "measure (\<lambda>(m, off, lim, i, list). lim - i)") auto

declare get_loop.simps [simp del]

text \<open>
  \<open>hdr_end\<close> is \<open>int(b[8] + 1 + 8)\<close>: the sum is taken in \<open>byte\<close> arithmetic and
  converted afterwards.
\<close>

definition hdr_end :: "byte list \<Rightarrow> nat \<Rightarrow> nat" where
  "hdr_end m off = unat (m ! (off + 8) + 1 + 8)"

definition get :: "byte list \<Rightarrow> int \<Rightarrow> (gostring list \<times> int) result" where
  "get m off =
     (case read_total m off of
        Panic \<Rightarrow> Panic
      | Ok tot \<Rightarrow>
          if in_bounds m off (off + tot) \<and> 16 \<le> tot then
            (case get_loop m (nat off) (nat tot - 16) (hdr_end m (nat off)) [] of
               Panic \<Rightarrow> Panic
             | Ok list \<Rightarrow>
                 Ok (list, bigUint64 (slice m (nat off + nat tot - 8) (nat off + nat tot))))
          else Panic)"

partial_function (option) gets_loop :: "byte list \<Rightarrow> int \<Rightarrow> gostring list \<Rightarrow> gostring list result option" where
  "gets_loop m off acc =
     (case get m off of
        Panic \<Rightarrow> Some Panic
      | Ok (list, d) \<Rightarrow>
          if d = 0 then Some (Ok (acc @ list)) else gets_loop m d (acc @ list))"

declare gets_loop.simps [code]

definition gets :: "msearch \<Rightarrow> gostring \<Rightarrow> gostring list result option" where
  "gets s key =
     (case keyMap s key of
        None \<Rightarrow> Some (Ok [])
      | Some off \<Rightarrow>
          if off = notExist then Some (Ok []) else gets_loop (bytesAddr s) off [])"

section \<open>Deleting: del, dels, delPrefix, delsPrefix\<close>

text \<open>
  \<open>valueMap\<close> is the set of the values to delete. A slot that matches is overwritten
  with zeros, payload first and length byte after; the loop then steps over it by the
  length it read before.
\<close>

function del_loop :: "byte list \<Rightarrow> nat \<Rightarrow> nat \<Rightarrow> nat \<Rightarrow> gostring set \<Rightarrow> byte list result" where
  "del_loop m off lim i valueMap =
     (if i < lim then
        (let bi = unat (m ! (off + i)) in
         if bi = 0 then del_loop m off lim (i + 1) valueMap
         else if off + i + 1 + bi \<le> length m then
           del_loop
             (if slice m (off + i + 1) (off + i + 1 + bi) \<in> valueMap
              then (write_at m (off + i + 1) (replicate bi 0))[off + i := 0]
              else m)
             off lim (i + bi + 1) valueMap
         else Panic)
      else Ok m)"
  by pat_completeness auto
termination
  by (relation "measure (\<lambda>(m, off, lim, i, valueMap). lim - i)") auto

declare del_loop.simps [simp del]

definition del :: "byte list \<Rightarrow> int \<Rightarrow> gostring set \<Rightarrow> (byte list \<times> int) result" where
  "del m off valueMap =
     (case read_total m off of
        Panic \<Rightarrow> Panic
      | Ok tot \<Rightarrow>
          if tot = 0 then Ok (m, 0)
          else if in_bounds m off (off + tot) \<and> 16 \<le> tot then
            (case del_loop m (nat off) (nat tot - 16) (hdr_end m (nat off)) valueMap of
               Panic \<Rightarrow> Panic
             | Ok m' \<Rightarrow>
                 Ok (m', bigUint64 (slice m' (nat off + nat tot - 8) (nat off + nat tot))))
          else Panic)"

partial_function (option) dels_loop :: "byte list \<Rightarrow> int \<Rightarrow> gostring set \<Rightarrow> byte list result option" where
  "dels_loop m off valueMap =
     (case del m off valueMap of
        Panic \<Rightarrow> Some Panic
      | Ok (m', d) \<Rightarrow> if d = 0 then Some (Ok m') else dels_loop m' d valueMap)"

declare dels_loop.simps [code]

text \<open>\<open>dels\<close> looks the key up with \<open>!ok\<close> alone: the sentinel is not tested.\<close>

definition dels :: "msearch \<Rightarrow> gostring \<Rightarrow> gostring list \<Rightarrow> msearch result option" where
  "dels s key values =
     (case keyMap s key of
        None \<Rightarrow> Some (Ok s)
      | Some off \<Rightarrow>
          if set values = {} then Some (Ok s)
          else map_option (map_result (\<lambda>m. s\<lparr>bytesAddr := m\<rparr>))
                 (dels_loop (bytesAddr s) off (set values)))"

text \<open>\<open>strings.HasPrefix(s, prefix)\<close>.\<close>

definition hasPrefix :: "gostring \<Rightarrow> gostring \<Rightarrow> bool" where
  "hasPrefix s p = (length p \<le> length s \<and> take (length p) s = p)"

function delPrefix_loop :: "byte list \<Rightarrow> nat \<Rightarrow> nat \<Rightarrow> nat \<Rightarrow> gostring list \<Rightarrow> byte list result" where
  "delPrefix_loop m off lim i values =
     (if i < lim then
        (let bi = unat (m ! (off + i)) in
         if bi = 0 then delPrefix_loop m off lim (i + 1) values
         else if off + i + 1 + bi \<le> length m then
           delPrefix_loop
             (if list_ex (hasPrefix (slice m (off + i + 1) (off + i + 1 + bi))) values
              then (write_at m (off + i + 1) (replicate bi 0))[off + i := 0]
              else m)
             off lim (i + bi + 1) values
         else Panic)
      else Ok m)"
  by pat_completeness auto
termination
  by (relation "measure (\<lambda>(m, off, lim, i, values). lim - i)") auto

declare delPrefix_loop.simps [simp del]

definition delPrefix :: "byte list \<Rightarrow> int \<Rightarrow> gostring list \<Rightarrow> (byte list \<times> int) result" where
  "delPrefix m off values =
     (case read_total m off of
        Panic \<Rightarrow> Panic
      | Ok tot \<Rightarrow>
          if tot = 0 then Ok (m, 0)
          else if in_bounds m off (off + tot) \<and> 16 \<le> tot then
            (case delPrefix_loop m (nat off) (nat tot - 16) (hdr_end m (nat off)) values of
               Panic \<Rightarrow> Panic
             | Ok m' \<Rightarrow>
                 Ok (m', bigUint64 (slice m' (nat off + nat tot - 8) (nat off + nat tot))))
          else Panic)"

partial_function (option) delsPrefix_loop :: "byte list \<Rightarrow> int \<Rightarrow> gostring list \<Rightarrow> byte list result option" where
  "delsPrefix_loop m off values =
     (case delPrefix m off values of
        Panic \<Rightarrow> Some Panic
      | Ok (m', d) \<Rightarrow> if d = 0 then Some (Ok m') else delsPrefix_loop m' d values)"

declare delsPrefix_loop.simps [code]

definition delsPrefix :: "msearch \<Rightarrow> gostring \<Rightarrow> gostring list \<Rightarrow> msearch result option" where
  "delsPrefix s key values =
     (case keyMap s key of
        None \<Rightarrow> Some (Ok s)
      | Some off \<Rightarrow>
          if length values = 0 then Some (Ok s)
          else map_option (map_result (\<lambda>m. s\<lparr>bytesAddr := m\<rparr>))
                 (delsPrefix_loop (bytesAddr s) off values))"

section \<open>Looking for a gap: empty1 and empty\<close>

text \<open>
  The loop of \<open>empty1\<close>. The Go variables \<open>first\<close> and \<open>t\<close> are set together and
  never reset, so one flag stands for both. The result is \<open>(start, end, t)\<close>, where
  \<open>end\<close> is \<open>Some i\<close> when the function returned from inside the loop.
\<close>

function empty1_loop :: "byte list \<Rightarrow> nat \<Rightarrow> nat \<Rightarrow> nat \<Rightarrow> bool \<Rightarrow> nat \<Rightarrow> nat \<times> nat option \<times> bool" where
  "empty1_loop m off lim i t start =
     (if i < lim then
        (if m ! (off + i) = 0 then
           (if \<not> t then empty1_loop m off lim (i + 1) True i
            else empty1_loop m off lim (i + 1) t start)
         else if t then (start, Some i, t)
         else empty1_loop m off lim (i + unat (m ! (off + i)) + 1) t start)
      else (start, None, t))"
  by pat_completeness auto
termination
  by (relation "measure (\<lambda>(m, off, lim, i, t, start). lim - i)") auto

declare empty1_loop.simps [simp del]

text \<open>The result of \<open>empty1\<close> is \<open>(o, lastDec, start, end, t)\<close>.\<close>

definition empty1 :: "byte list \<Rightarrow> int \<Rightarrow> (int \<times> int \<times> int \<times> int \<times> bool) result" where
  "empty1 m off =
     (case read_total m off of
        Panic \<Rightarrow> Panic
      | Ok tot \<Rightarrow>
          if in_bounds m off (off + tot) \<and> 16 \<le> tot then
            (case empty1_loop m (nat off) (nat tot - 16) (hdr_end m (nat off)) False 0 of
               (start, Some e, t) \<Rightarrow> Ok (off, 0, int start, int e, t)
             | (start, None, t) \<Rightarrow>
                 Ok (off, bigUint64 (slice m (nat off + nat tot - 8) (nat off + nat tot)),
                     int start, (if t then tot - 16 else 0), t))
          else Panic)"

text \<open>The result of \<open>empty\<close> is \<open>(o, start, end, t)\<close>; Go's \<open>o\<close> is written \<open>ro\<close>.\<close>

partial_function (option) empty :: "byte list \<Rightarrow> int \<Rightarrow> (int \<times> int \<times> int \<times> bool) result option" where
  "empty m off =
     (case empty1 m off of
        Panic \<Rightarrow> Some Panic
      | Ok (ro, lastDec, start, e, t) \<Rightarrow>
          if lastDec = 0 \<or> t then Some (Ok (ro, start, e, t)) else empty m lastDec)"

declare empty.simps [code]

section \<open>Finding the tail: b8 and getB8byOffset\<close>

text \<open>
  The slice \<open>b8\<close> aliases the last eight bytes of a record in the mapping; it is
  modelled by its position there, \<open>None\<close> for the nil slice.
\<close>

definition b8 :: "msearch \<Rightarrow> int \<Rightarrow> (int \<times> nat option) result" where
  "b8 s off =
     (if off \<ge> offset s then Ok (0, None)
      else
        (case read_total (bytesAddr s) off of
           Panic \<Rightarrow> Panic
         | Ok tot \<Rightarrow>
             if in_bounds (bytesAddr s) (off + tot - 8) (off + tot)
                \<and> in_bounds (bytesAddr s) off (off + tot) \<and> 8 \<le> tot
             then Ok (bigUint64 (slice (bytesAddr s) (nat (off + tot - 8)) (nat (off + tot))),
                      Some (nat (off + tot - 8)))
             else Panic))"

partial_function (option) getB8byOffset :: "msearch \<Rightarrow> int \<Rightarrow> nat option result option" where
  "getB8byOffset s off =
     (case b8 s off of
        Panic \<Rightarrow> Some Panic
      | Ok (lastDec, p) \<Rightarrow> if lastDec = 0 then Some (Ok p) else getB8byOffset s lastDec)"

declare getB8byOffset.simps [code]

section \<open>Appending a record: add\<close>

text \<open>
  The scratch buffer \<open>b\<close> of \<open>add\<close> is a byte list with its capacity beside it.
  \<open>make([]byte, 1<<10)\<close> has capacity 1024. What capacity \<open>append\<close> gives a
  buffer that it has to reallocate is the business of the Go runtime, not of this
  package: it is the parameter \<open>growcap\<close> (old capacity, new length). The bytes
  between length and capacity of a fresh buffer are zero.

  The loop over \<open>values\<close>: the buffer grows by one block when the next value might
  not fit, then the length test, then the slot is stored. The result is the buffer,
  its capacity and \<open>idx\<close>.
\<close>

fun add_values :: "(nat \<Rightarrow> nat \<Rightarrow> nat) \<Rightarrow> byte list \<Rightarrow> nat \<Rightarrow> nat \<Rightarrow> gostring list
    \<Rightarrow> (error + byte list \<times> nat \<times> nat) result" where
  "add_values growcap b c idx [] = Ok (Inr (b, c, idx))"
| "add_values growcap b c idx (value # values) =
     (let grow = length b < idx + length value + 2;
          b' = (if grow then b @ replicate 1024 0 else b);
          c' = (if grow \<and> c < length b + 1024 then growcap c (length b + 1024) else c)
      in
        if length value > 255 then Ok (Inl ValueTooLarge)
        else if idx < length b' then
          add_values growcap
            (write_at (b'[idx := of_nat (length value)]) (idx + 1) value)
            c' (idx + 1 + length value) values
        else Panic)"

text \<open>
  \<open>f.Write(b)\<close> puts bytes at the position of the handle; through the shared mapping
  they are seen in \<open>bytesAddr\<close> as far as the mapping reaches.
\<close>

definition file_write :: "msearch \<Rightarrow> byte list \<Rightarrow> msearch" where
  "file_write s bs =
     s\<lparr>bytesAddr := write_at (bytesAddr s) (fpos s) bs, fpos := fpos s + length bs\<rparr>"

text \<open>The record that \<open>add\<close> hands to \<open>f.Write\<close>, or the error found on the way.\<close>

definition build_record :: "(nat \<Rightarrow> nat \<Rightarrow> nat) \<Rightarrow> int \<Rightarrow> gostring \<Rightarrow> gostring list
    \<Rightarrow> (error + byte list) result" where
  "build_record growcap end_off key values =
     (let b0 = (replicate 1024 0)[8 := of_nat (length key)];
          n = min (length key) (1024 - 9);
          b1 = write_at b0 9 key;
          idx0 = n + 1 + 8
      in
        case add_values growcap b1 1024 idx0 values of
          Panic \<Rightarrow> Panic
        | Ok (Inl e) \<Rightarrow> Ok (Inl e)
        | Ok (Inr (b, c, idx)) \<Rightarrow>
            (let tot = idx + 16 in
             if length b < idx + 8 then Panic
             else if c < tot then Panic
             else
               (let b2 = write_at b idx (putUint64 (int tot + end_off));
                    b3 = take tot (b2 @ replicate (c - length b2) 0)
                in Ok (Inr (write_at b3 0 (putUint64 (int tot)))))))"

definition add :: "(nat \<Rightarrow> nat \<Rightarrow> nat) \<Rightarrow> msearch \<Rightarrow> nat option \<Rightarrow> gostring \<Rightarrow> gostring list
    \<Rightarrow> write_outcome \<Rightarrow> (error option \<times> msearch) result" where
  "add growcap s b8p key values wr =
     (case build_record growcap (offset s) key values of
        Panic \<Rightarrow> Panic
      | Ok (Inl e) \<Rightarrow> Ok (Some e, s)
      | Ok (Inr b) \<Rightarrow>
          (case wr of
             WriteFails n \<Rightarrow> Ok (Some IoError, file_write s (take n b))
           | WriteOk \<Rightarrow>
               (let s1 = file_write s b;
                    s2 = (case keyMap s1 key of
                            None \<Rightarrow> s1\<lparr>keyMap := (keyMap s1)(key \<mapsto> offset s1)\<rparr>
                          | Some i \<Rightarrow>
                              if i = notExist
                              then s1\<lparr>keyMap := (keyMap s1)(key \<mapsto> offset s1)\<rparr>
                              else s1);
                    s3 = (case b8p of
                            None \<Rightarrow> s2
                          | Some p \<Rightarrow>
                              s2\<lparr>bytesAddr := write_at (bytesAddr s2) p (putUint64 (offset s2))\<rparr>)
                in Ok (None, s3\<lparr>offset := offset s3 + int (length b)\<rparr>))))"

section \<open>adds\<close>

text \<open>
  The block \<open>if len(values) == 1 { ... }\<close> of \<open>adds\<close>. The result is \<open>Some s'\<close> when
  the value was stored in a gap and \<open>adds\<close> returned there, \<open>None\<close> when control
  falls through to the append. The slice \<open>b\<close> starts at \<open>o\<close> but takes its length
  from the record at \<open>offset\<close>, the head of the chain.
\<close>

definition fill_gap :: "msearch \<Rightarrow> int \<Rightarrow> gostring \<Rightarrow> msearch option result option" where
  "fill_gap s off value =
     (case empty (bytesAddr s) off of
        None \<Rightarrow> None
      | Some Panic \<Rightarrow> Some Panic
      | Some (Ok (ro, start, e, t)) \<Rightarrow>
          if t \<and> int (length value) < e - start then
            (case read_total (bytesAddr s) off of
               Panic \<Rightarrow> Some Panic
             | Ok tot \<Rightarrow>
                 if in_bounds (bytesAddr s) ro (ro + tot) \<and> 0 \<le> start \<and> start < tot then
                   Some (Ok (Some (s\<lparr>bytesAddr :=
                     write_at ((bytesAddr s)[nat (ro + start) := of_nat (length value)])
                       (nat (ro + start) + 1) (take (nat (tot - start - 1)) value)\<rparr>)))
                 else Some Panic)
          else Some (Ok None))"

definition adds :: "(nat \<Rightarrow> nat \<Rightarrow> nat) \<Rightarrow> msearch \<Rightarrow> gostring \<Rightarrow> gostring list \<Rightarrow> write_outcome
    \<Rightarrow> (error option \<times> msearch) result option" where
  "adds growcap s key values wr =
     (if length values = 0 then Some (Ok (None, s))
      else
        (case keyMap s key of
           None \<Rightarrow> Some (add growcap s None key values wr)
         | Some off \<Rightarrow>
             if off = notExist then Some (add growcap s None key values wr)
             else
               (case (if length values = 1 then fill_gap s off (hd values) else Some (Ok None)) of
                  None \<Rightarrow> None
                | Some Panic \<Rightarrow> Some Panic
                | Some (Ok (Some s')) \<Rightarrow> Some (Ok (None, s'))
                | Some (Ok None) \<Rightarrow>
                    (case getB8byOffset s off of
                       None \<Rightarrow> None
                     | Some Panic \<Rightarrow> Some Panic
                     | Some (Ok p) \<Rightarrow> Some (add growcap s p key values wr)))))"

section \<open>The public operations\<close>

text \<open>
  Each operation returns \<open>None\<close> when it does not return (a chain walk that never
  reaches a record with \<open>next = 0\<close>), \<open>Some Panic\<close> when it panics, and otherwise
  its result and the state it leaves.
\<close>

definition Get :: "msearch \<Rightarrow> gostring \<Rightarrow> gostring list result option" where
  "Get s key = gets s key"

definition Add :: "(nat \<Rightarrow> nat \<Rightarrow> nat) \<Rightarrow> msearch \<Rightarrow> gostring \<Rightarrow> gostring list \<Rightarrow> write_outcome
    \<Rightarrow> (error option \<times> msearch) result option" where
  "Add growcap s key values wr = adds growcap s key values wr"

definition Del :: "msearch \<Rightarrow> gostring \<Rightarrow> gostring list \<Rightarrow> msearch result option" where
  "Del s key values = dels s key values"

definition DelByPrefix :: "msearch \<Rightarrow> gostring \<Rightarrow> gostring list \<Rightarrow> msearch result option" where
  "DelByPrefix s key values = delsPrefix s key values"

definition Update :: "(nat \<Rightarrow> nat \<Rightarrow> nat) \<Rightarrow> msearch \<Rightarrow> gostring \<Rightarrow> gostring list \<Rightarrow> write_outcome
    \<Rightarrow> (error option \<times> msearch) result option" where
  "Update growcap s key values wr =
     (case gets s key of
        None \<Rightarrow> None
      | Some Panic \<Rightarrow> Some Panic
      | Some (Ok oldValues) \<Rightarrow>
          (case dels s key oldValues of
             None \<Rightarrow> None
           | Some Panic \<Rightarrow> Some Panic
           | Some (Ok s1) \<Rightarrow> adds growcap s1 key values wr))"

definition Exist :: "msearch \<Rightarrow> gostring \<Rightarrow> bool \<times> msearch" where
  "Exist s key =
     (case keyMap s key of
        None \<Rightarrow> (False, s\<lparr>keyMap := (keyMap s)(key \<mapsto> notExist)\<rparr>)
      | Some off \<Rightarrow>
          if off \<noteq> notExist then (True, s)
          else (False, s\<lparr>keyMap := (keyMap s)(key \<mapsto> notExist)\<rparr>))"

section \<open>Sequences of operations\<close>

text \<open>
  One call of the public interface, with what the file system does to its write. A
  run stops at the first call that panics or does not return.
\<close>

datatype op =
    OpAdd gostring "gostring list" write_outcome
  | OpDel gostring "gostring list"
  | OpDelByPrefix gostring "gostring list"
  | OpUpdate gostring "gostring list" write_outcome
  | OpGet gostring
  | OpExist gostring

fun step :: "(nat \<Rightarrow> nat \<Rightarrow> nat) \<Rightarrow> msearch \<Rightarrow> op \<Rightarrow> msearch result option" where
  "step growcap s (OpAdd key values wr) = map_option (map_result snd) (Add growcap s key values wr)"
| "step growcap s (OpDel key values) = Del s key values"
| "step growcap s (OpDelByPrefix key values) = DelByPrefix s key values"
| "step growcap s (OpUpdate key values wr) = map_option (map_result snd) (Update growcap s key values wr)"
| "step growcap s (OpGet key) = map_option (map_result (\<lambda>r. s)) (Get s key)"
| "step growcap s (OpExist key) = Some (Ok (snd (Exist s key)))"

fun run :: "(nat \<Rightarrow> nat \<Rightarrow> nat) \<Rightarrow> msearch \<Rightarrow> op list \<Rightarrow> msearch result option" where
  "run growcap s [] = Some (Ok s)"
| "run growcap s (p # ps) =
     (case step growcap s p of
        None \<Rightarrow> None
      | Some Panic \<Rightarrow> Some Panic
      | Some (Ok s') \<Rightarrow> run growcap s' ps)"

section \<open>The record layout\<close>

text \<open>
  The layout of a record as the header comment of msearch.go gives it: the total
  length in eight bytes, the length byte and the bytes of the key, one length byte and
  the payload for each value, and a trailer of two eight-byte fields. \<open>enc\<close> is the
  packed sequence of value slots. No more than 1015 bytes of a key fit the scratch
  buffer into which \<open>add\<close> copies it.
\<close>

definition enc :: "gostring list \<Rightarrow> byte list" where
  "enc values = concat (map (\<lambda>v. of_nat (length v) # v) values)"

definition record_bytes :: "int \<Rightarrow> gostring \<Rightarrow> gostring list \<Rightarrow> byte list" where
  "record_bytes end_off key values =
     (let body = of_nat (length key) # take 1015 key @ enc values;
          tot = 8 + length body + 16
      in putUint64 (int tot) @ body @ putUint64 (int tot + end_off) @ replicate 8 0)"

text \<open>
  A capacity rule for \<open>append\<close>, used where a concrete run needs one: the new
  capacity is the new length.
\<close>

definition exact_cap :: "nat \<Rightarrow> nat \<Rightarrow> nat" where
  "exact_cap c n = n"

text \<open>\<open>keeps s s'\<close>: every real head offset in the index of \<open>s\<close> is still there in \<open>s'\<close>.\<close>

definition keeps :: "msearch \<Rightarrow> msearch \<Rightarrow> bool" where
  "keeps s s' = (\<forall>k off. keyMap s k = Some off \<and> off \<noteq> notExist \<longrightarrow> keyMap s' k = Some off)"

section \<open>Concrete runs\<close>

text \<open>
  Whether a call returned without a panic, and what it returned then. The states of
  the concrete runs below are reached from a new engine by calls of the public
  interface.
\<close>

definition returned :: "'a result option \<Rightarrow> bool" where
  "returned r = (case r of Some (Ok x) \<Rightarrow> True | _ \<Rightarrow> False)"

definition panicked :: "'a result option \<Rightarrow> bool" where
  "panicked r = (case r of Some Panic \<Rightarrow> True | _ \<Rightarrow> False)"

definition the_ok :: "'a result option \<Rightarrow> 'a" where
  "the_ok r = (case r of Some (Ok x) \<Rightarrow> x)"

definition key_u :: gostring where
  "key_u = bytes_of ''u''"

definition key_w :: gostring where
  "key_w = bytes_of ''w''"

text \<open>A run that touches two keys with every operation of the interface.\<close>

definition st_two :: msearch where
  "st_two = the_ok (run exact_cap (NewMsearch 160)
     [OpAdd key_u [bytes_of ''a'', bytes_of ''b''] WriteOk])"

definition ops_mixed :: "op list" where
  "ops_mixed =
     [OpExist key_w,
      OpAdd key_w [bytes_of ''z''] WriteOk,
      OpDel key_u [bytes_of ''a''],
      OpAdd key_u [bytes_of ''c''] WriteOk,
      OpUpdate key_u [bytes_of ''q'', bytes_of ''r''] WriteOk,
      OpDelByPrefix key_u [bytes_of ''q''],
      OpGet key_u,
      OpExist key_u,
      OpAdd key_u [bytes_of ''x'', bytes_of ''y''] (WriteFails 3)]"

text \<open>A key of 255 bytes, the longest that the length byte of the header can hold.\<close>

definition key255 :: gostring where
  "key255 = replicate 255 107"

text \<open>\<open>Exist\<close> on a new engine stores the sentinel.\<close>

definition st_sentinel :: msearch where
  "st_sentinel = snd (Exist (NewMsearch 64) key_u)"

text \<open>
  A chain of two records: the head holds one value and no gap, the second record is
  longer than the head and has a gap where \<open>dd\<close> was.
\<close>

definition st_gap2 :: msearch where
  "st_gap2 = the_ok (run exact_cap (NewMsearch 128)
     [OpAdd key_u [bytes_of ''a''] WriteOk,
      OpAdd key_u [replicate 17 99, bytes_of ''dd''] WriteOk,
      OpDel key_u [bytes_of ''dd'']])"

text \<open>A write that fails after twelve bytes, and the next call, on another key.\<close>

definition st_failed :: msearch where
  "st_failed = the_ok (run exact_cap (NewMsearch 64)
     [OpAdd key_u [bytes_of ''a''] (WriteFails 12)])"

definition st_after_failed :: msearch where
  "st_after_failed = the_ok (run exact_cap st_failed [OpAdd key_w [bytes_of ''b''] WriteOk])"

text \<open>
  A key of 254 bytes whose bytes 239 to 246 spell the number 5, stored behind a
  record of another key, and a delete of the 25 bytes that follow the low byte of
  the record's total.
\<close>

definition key254 :: gostring where
  "key254 = replicate 239 107 @ [0, 0, 0, 0, 0, 0, 0, 5] @ replicate 7 107"

definition st_link :: msearch where
  "st_link = the_ok (run exact_cap (NewMsearch 400)
     [OpAdd (bytes_of ''a'') [bytes_of ''b''] WriteOk,
      OpAdd key254 [bytes_of ''x''] WriteOk,
      OpDel key254 [254 # replicate 24 107]])"

text \<open>
  One record whose value area holds a gap of two bytes, the live value \<open>x\<close> and a gap
  of four bytes.
\<close>

definition st_gaps :: msearch where
  "st_gaps = the_ok (run exact_cap (NewMsearch 128)
     [OpAdd key_u [bytes_of ''a'', bytes_of ''x'', bytes_of ''bbb''] WriteOk,
      OpDel key_u [bytes_of ''a'', bytes_of ''bbb'']])"



text \<open>
  One record whose value area is a single gap of 258 bytes, left by the delete of a
  value of 255 bytes and a value of one byte.
\<close>

definition st_wide :: msearch where
  "st_wide = the_ok (run exact_cap (NewMsearch 300)
     [OpAdd key_u [replicate 255 112, bytes_of ''q''] WriteOk,
      OpDel key_u [replicate 255 112, bytes_of ''q'']])"

section \<open>Records, slots, gaps and chains as the specification describes them\<close>

text \<open>
  These definitions follow the words of the specification, not the code; the
  theorems below compare the two. A value slot is live (a length byte from 1 to 255
  and that many bytes) or a tombstone byte \<open>0x00\<close>. The value area of a record lies
  between the end of its header, at \<open>8 + 1 + klen\<close>, and its trailer of 16 bytes.
\<close>

datatype slot = Live gostring | Tomb

function slots :: "byte list \<Rightarrow> slot list" where
  "slots [] = []"
| "slots (n # bs) =
     (if n = 0 then Tomb # slots bs
      else Live (take (unat n) bs) # slots (drop (unat n) bs))"
  by pat_completeness auto
termination
  by (relation "measure length") auto

text \<open>No live slot reaches beyond the end of the area.\<close>

function aligned :: "byte list \<Rightarrow> bool" where
  "aligned [] = True"
| "aligned (n # bs) =
     (if n = 0 then aligned bs
      else unat n \<le> length bs \<and> aligned (drop (unat n) bs))"
  by pat_completeness auto
termination
  by (relation "measure length") auto

definition lives :: "slot list \<Rightarrow> gostring list" where
  "lives ss = concat (map (\<lambda>x. case x of Live v \<Rightarrow> [v] | Tomb \<Rightarrow> []) ss)"

definition is_tomb :: "slot \<Rightarrow> bool" where
  "is_tomb x = (case x of Tomb \<Rightarrow> True | Live v \<Rightarrow> False)"

text \<open>
  The gaps of a sequence of slots that starts at position \<open>i\<close> of its record: the
  maximal runs of tombstone bytes, each as \<open>(start, end)\<close> with the end exclusive, in
  the order of the record.
\<close>

function gaps :: "nat \<Rightarrow> slot list \<Rightarrow> (nat \<times> nat) list" where
  "gaps i [] = []"
| "gaps i (Live v # ss) = gaps (i + 1 + length v) ss"
| "gaps i (Tomb # ss) =
     (i, i + 1 + length (takeWhile is_tomb ss))
       # gaps (i + 1 + length (takeWhile is_tomb ss)) (dropWhile is_tomb ss)"
  by pat_completeness auto
termination
  by (relation "measure (\<lambda>(i, ss). length ss)") (auto simp: length_dropWhile_le le_imp_less_Suc)

text \<open>The fields of the record at offset \<open>r\<close> of the mapping.\<close>

definition total_of :: "byte list \<Rightarrow> nat \<Rightarrow> nat" where
  "total_of m r = nat (bigUint64 (slice m r (r + 8)))"

definition klen_of :: "byte list \<Rightarrow> nat \<Rightarrow> nat" where
  "klen_of m r = unat (m ! (r + 8))"

definition next_of :: "byte list \<Rightarrow> nat \<Rightarrow> int" where
  "next_of m r = bigUint64 (slice m (r + total_of m r - 8) (r + total_of m r))"

definition value_area :: "byte list \<Rightarrow> nat \<Rightarrow> byte list" where
  "value_area m r = slice m (r + 9 + klen_of m r) (r + total_of m r - 16)"

definition record_values :: "byte list \<Rightarrow> nat \<Rightarrow> gostring list" where
  "record_values m r = lives (slots (value_area m r))"

definition record_gaps :: "byte list \<Rightarrow> nat \<Rightarrow> (nat \<times> nat) list" where
  "record_gaps m r = gaps (9 + klen_of m r) (slots (value_area m r))"

text \<open>
  A well-formed record below \<open>lim\<close>: it lies in the mapping and ends at or before
  \<open>lim\<close>, its header and trailer fit its total, and its slots are aligned. The key has
  at most 246 bytes, so that \<open>klen + 9\<close> does not exceed a byte.
\<close>

definition wf_record :: "byte list \<Rightarrow> nat \<Rightarrow> nat \<Rightarrow> bool" where
  "wf_record m lim r =
     (lim \<le> length m \<and> r + total_of m r \<le> lim
      \<and> 0 \<le> bigUint64 (slice m r (r + 8))
      \<and> klen_of m r \<le> 246 \<and> 9 + klen_of m r + 16 \<le> total_of m r
      \<and> aligned (value_area m r))"

text \<open>
  A chain below \<open>lim\<close>, as the list of the offsets of its records from head to tail:
  every record is well-formed, the \<open>next\<close> field of each record but the last is the
  offset of its successor, which lies behind the record, and the \<open>next\<close> field of the
  last record is 0.
\<close>

fun is_chain :: "byte list \<Rightarrow> nat \<Rightarrow> nat list \<Rightarrow> bool" where
  "is_chain m lim [] = False"
| "is_chain m lim [r] = (wf_record m lim r \<and> next_of m r = 0)"
| "is_chain m lim (r # r' # rs) =
     (wf_record m lim r \<and> next_of m r = int r' \<and> r + total_of m r \<le> r'
      \<and> is_chain m lim (r' # rs))"

text \<open>
  The first gap of a chain: the gap nearest the header in the first record, from head
  to tail, that has a gap at all; and the first usable gap for a payload of \<open>n\<close>
  bytes, which is the first gap longer than \<open>n\<close>.
\<close>

fun first_gap :: "byte list \<Rightarrow> nat list \<Rightarrow> (nat \<times> nat \<times> nat) option" where
  "first_gap m [] = None"
| "first_gap m (r # rs) =
     (case record_gaps m r of
        [] \<Rightarrow> first_gap m rs
      | (st, e) # gs \<Rightarrow> Some (r, st, e))"

fun first_usable_gap :: "byte list \<Rightarrow> nat \<Rightarrow> nat list \<Rightarrow> (nat \<times> nat \<times> nat) option" where
  "first_usable_gap m n [] = None"
| "first_usable_gap m n (r # rs) =
     (case filter (\<lambda>(st, e). n < e - st) (record_gaps m r) of
        [] \<Rightarrow> first_usable_gap m n rs
      | (st, e) # gs \<Rightarrow> Some (r, st, e))"

text \<open>
  Helpers for the comparison: the length of the run of zero bytes at the front of a
  list, and the results of \<open>empty1_loop\<close>, \<open>empty1\<close> and \<open>empty\<close> written with the gaps
  of the specification.
\<close>

definition zrun :: "byte list \<Rightarrow> nat" where
  "zrun bs = length (takeWhile (\<lambda>b. b = 0) bs)"

definition gap_result :: "nat \<Rightarrow> (nat \<times> nat) list \<Rightarrow> nat \<times> nat option \<times> bool" where
  "gap_result lim gs =
     (case gs of [] \<Rightarrow> (0, None, False)
      | (st, e) # gs' \<Rightarrow> (st, (if e < lim then Some e else None), True))"

text \<open>What \<open>empty1\<close> returns on a well-formed record, in terms of the gaps of the record.\<close>

definition empty1_spec :: "byte list \<Rightarrow> nat \<Rightarrow> int \<times> int \<times> int \<times> int \<times> bool" where
  "empty1_spec m r =
     (case record_gaps m r of
        [] \<Rightarrow> (int r, next_of m r, 0, 0, False)
      | (st, e) # gs \<Rightarrow>
          (int r, (if e < total_of m r - 16 then 0 else next_of m r), int st, int e, True))"

definition empty_spec :: "byte list \<Rightarrow> nat list \<Rightarrow> int \<times> int \<times> int \<times> bool" where
  "empty_spec m rs =
     (case first_gap m rs of
        None \<Rightarrow> (int (last rs), 0, 0, False)
      | Some (r, st, e) \<Rightarrow> (int r, int st, int e, True))"

section \<open>What add builds\<close>

lemma length_write_at [simp]: "length (write_at m p bs) = length m"
  by (simp add: write_at_def)

lemma write_at_exact:
  "p + length bs \<le> length m \<Longrightarrow> write_at m p bs = take p m @ bs @ drop (p + length bs) m"
  by (simp add: write_at_def)

lemma enc_Nil [simp]: "enc [] = []"
  by (simp add: enc_def)
lemma enc_Cons [simp]: "enc (v # vs) = of_nat (length v) # v @ enc vs"
  by (simp add: enc_def)

lemma add_values_Inr:
  assumes "add_values g b c idx values = Ok (Inr (b', c', idx'))"
    and "idx \<le> length b"
    and "drop idx b = replicate (length b - idx) 0"
  shows "idx' = idx + length (enc values) \<and> idx' \<le> length b'
         \<and> take idx' b' = take idx b @ enc values
         \<and> drop idx' b' = replicate (length b' - idx') 0
         \<and> (\<forall>v\<in>set values. length v \<le> 255)"
  using assms
proof (induction "values" arbitrary: b c idx)
  case Nil
  then show ?case by simp
next
  case (Cons v vs)
  define grow where "grow = (length b < idx + length v + 2)"
  define b1 where "b1 = (if grow then b @ replicate 1024 0 else b)"
  define c1 where "c1 = (if grow \<and> c < length b + 1024 then g c (length b + 1024) else c)"
  define b2 where "b2 = write_at (b1[idx := of_nat (length v)]) (idx + 1) v"
  from Cons.prems(1) have v255: "length v \<le> 255"
    by (auto simp: Let_def split: if_splits)
  from Cons.prems(1) v255 have rec: "add_values g b2 c1 (idx + 1 + length v) vs = Ok (Inr (b', c', idx'))"
    by (auto simp: Let_def grow_def b1_def c1_def b2_def split: if_splits)
  have len1: "idx + length v + 2 \<le> length b1"
    using Cons.prems(2) v255 by (auto simp: b1_def grow_def)
  have t1: "take idx b1 = take idx b" using Cons.prems(2) by (simp add: b1_def)
  have d1: "drop idx b1 = replicate (length b1 - idx) 0"
    using Cons.prems(2,3) by (auto simp: b1_def replicate_add [symmetric])
  have b2eq: "b2 = take idx b @ (of_nat (length v) # v) @ replicate (length b1 - (idx + 1 + length v)) 0"
  proof -
    have "b2 = take (idx + 1) (b1[idx := of_nat (length v)]) @ v @ drop (idx + 1 + length v) (b1[idx := of_nat (length v)])"
      unfolding b2_def using len1 by (subst write_at_exact) auto
    also have "take (idx + 1) (b1[idx := of_nat (length v)]) = take idx b @ [of_nat (length v)]"
      using len1 t1 by (simp add: take_Suc_conv_app_nth)
    also have "drop (idx + 1 + length v) (b1[idx := of_nat (length v)]) = drop (1 + length v) (drop idx b1)"
      by (simp add: add.commute add.left_commute)
    also have "\<dots> = replicate (length b1 - (idx + 1 + length v)) 0"
      by (simp add: d1)
    finally show ?thesis by simp
  qed
  have len2: "length b2 = length b1" by (simp add: b2_def)
  have idx2: "idx + 1 + length v \<le> length b2" using len1 len2 by simp
  have pre: "length (take idx b @ (of_nat (length v) # v)) = idx + 1 + length v"
    using Cons.prems(2) by simp
  have b2eq': "b2 = (take idx b @ (of_nat (length v) # v)) @ replicate (length b2 - (idx + 1 + length v)) 0"
    using b2eq len2 by simp
  have tk2: "take (idx + 1 + length v) b2 = take idx b @ (of_nat (length v) # v)"
    by (subst b2eq', subst pre [symmetric], rule append_eq_conv_conj [THEN iffD1, THEN conjunct1, symmetric]) (rule refl)
  have dr2: "drop (idx + 1 + length v) b2 = replicate (length b2 - (idx + 1 + length v)) 0"
    by (subst b2eq', subst pre [symmetric], rule append_eq_conv_conj [THEN iffD1, THEN conjunct2, symmetric]) (rule refl)
  note ih = Cons.IH [OF rec idx2 dr2]
  from ih have i1: "idx' = idx + 1 + length v + length (enc vs)" by blast
  from ih have e2: "idx' \<le> length b'" by blast
  from ih have i3: "take idx' b' = take (idx + 1 + length v) b2 @ enc vs" by blast
  from ih have e4: "drop idx' b' = replicate (length b' - idx') 0" by blast
  from ih have i5: "\<forall>x\<in>set vs. length x \<le> 255" by blast
  have e1: "idx' = idx + length (enc (v # vs))" using i1 by simp
  have e3: "take idx' b' = take idx b @ enc (v # vs)" unfolding i3 tk2 by simp
  have e5: "\<forall>x\<in>set (v # vs). length x \<le> 255" using i5 v255 by simp
  show ?case using e1 e2 e3 e4 e5 by blast
qed


lemma add_values_small:
  "\<forall>v\<in>set values. length v \<le> 255 \<Longrightarrow> idx + length (enc values) + 1 \<le> length b \<Longrightarrow>
   \<exists>b'. add_values g b c idx values = Ok (Inr (b', c, idx + length (enc values))) \<and> length b' = length b"
proof (induction "values" arbitrary: b idx)
  case Nil
  then show ?case by simp
next
  case (Cons v vs)
  have ng: "\<not> length b < idx + length v + 2" using Cons.prems(2) by simp
  let ?b2 = "write_at (b[idx := of_nat (length v)]) (idx + 1) v"
  have "\<exists>b'. add_values g ?b2 c (idx + 1 + length v) vs = Ok (Inr (b', c, idx + 1 + length v + length (enc vs))) \<and> length b' = length ?b2"
    by (rule Cons.IH) (use Cons.prems in auto)
  then show ?case using ng Cons.prems by (auto simp: Let_def add.assoc)
qed

lemma add_values_too_large:
  "\<exists>v\<in>set values. 255 < length v \<Longrightarrow> idx \<le> length b \<Longrightarrow>
   add_values g b c idx values = Ok (Inl ValueTooLarge)"
proof (induction "values" arbitrary: b c idx)
  case Nil
  then show ?case by simp
next
  case (Cons v vs)
  show ?case
  proof (cases "255 < length v")
    case True
    then show ?thesis by (simp add: Let_def)
  next
    case False
    with Cons.prems have ex: "\<exists>v\<in>set vs. 255 < length v" by auto
    define b1 where "b1 = (if length b < idx + length v + 2 then b @ replicate 1024 0 else b)"
    have len1: "idx + length v + 2 \<le> length b1"
      using Cons.prems(2) False by (auto simp: b1_def)
    have "add_values g (write_at (b1[idx := of_nat (length v)]) (idx + 1) v) c' (idx + 1 + length v) vs
          = Ok (Inl ValueTooLarge)" for c'
      by (rule Cons.IH [OF ex]) (use len1 in simp)
    then show ?thesis using False len1 by (simp add: Let_def b1_def)
  qed
qed

lemma length_putUint64 [simp]: "length (putUint64 v) = 8"
  by (simp add: putUint64_def)

lemma build_record_Inr:
  assumes "build_record g e key values = Ok (Inr r)"
  shows "r = record_bytes e key values \<and> (\<forall>v\<in>set values. length v \<le> 255)"
proof -
  define b0 :: "byte list" where "b0 = (replicate 1024 0)[8 := of_nat (length key)]"
  define n where "n = min (length key) (1024 - 9)"
  define b1 where "b1 = write_at b0 9 key"
  define idx0 where "idx0 = n + 1 + 8"
  from assms obtain b c idx where av: "add_values g b1 1024 idx0 values = Ok (Inr (b, c, idx))"
    and l8: "idx + 8 \<le> length b" and ctot: "idx + 16 \<le> c"
    and r: "r = write_at (take (idx + 16) (write_at b idx (putUint64 (int (idx + 16) + e)) @ replicate (c - length b) 0)) 0 (putUint64 (int (idx + 16)))"
    by (auto simp: build_record_def Let_def b0_def b1_def n_def idx0_def
             split: result.splits sum.splits if_splits)
  have lb1: "length b1 = 1024" by (simp add: b1_def b0_def)
  have r1024: "replicate 1024 (0::byte) = replicate 8 0 @ 0 # replicate 1015 0"
    by (rule nth_equalityI) (auto simp: nth_append nth_Cons')
  have b0eq: "b0 = replicate 8 0 @ of_nat (length key) # replicate 1015 0"
    unfolding b0_def r1024 by (simp add: list_update_append)
  have tk9: "take 9 b0 = replicate 8 0 @ [of_nat (length key)]"
    unfolding b0eq by simp
  have dr9: "drop (9 + length key) b0 = replicate (1015 - length key) 0"
    unfolding b0eq by (simp add: drop_Cons')
  have b1eq: "b1 = replicate 8 0 @ of_nat (length key) # take 1015 key @ replicate (1024 - idx0) 0"
  proof (cases "length key \<le> 1015")
    case True
    then show ?thesis
      unfolding b1_def write_at_def tk9 dr9 idx0_def n_def
      by (simp add: b0eq min_def)
  next
    case False
    then show ?thesis
      unfolding b1_def write_at_def tk9 dr9 idx0_def n_def
      by (simp add: b0eq min_def)
  qed
  define pre where "pre = replicate 8 (0::byte) @ of_nat (length key) # take 1015 key"
  have lpre: "length pre = idx0" by (simp add: pre_def idx0_def n_def min_def)
  have b1pre: "b1 = pre @ replicate (1024 - idx0) 0" by (simp add: b1eq pre_def)
  have i0: "idx0 \<le> length b1" by (simp add: lb1 idx0_def n_def)
  have d0: "drop idx0 b1 = replicate (length b1 - idx0) 0"
    by (subst b1pre, subst lpre [symmetric]) (simp add: lb1 lpre)
  have t0: "take idx0 b1 = pre"
    by (subst b1pre, subst lpre [symmetric]) simp
  note inv = add_values_Inr [OF av i0 d0]
  from inv have idx: "idx = idx0 + length (enc values)" by blast
  from inv have ilen: "idx \<le> length b" by blast
  from inv have tk: "take idx b = pre @ enc values" unfolding t0 by blast
  from inv have dr: "drop idx b = replicate (length b - idx) 0" by blast
  from inv have v255: "\<forall>v\<in>set values. length v \<le> 255" by blast
  define body where "body = pre @ enc values"
  have lbody: "length body = idx" by (simp add: body_def lpre idx)
  have beq: "b = body @ replicate (length b - idx) 0"
    using append_take_drop_id [of idx b] by (simp add: tk dr body_def)
  define X where "X = putUint64 (int (idx + 16) + e)"
  have lX: "length X = 8" by (simp add: X_def)
  define k1 where "k1 = length b - idx - 8"
  define k2 where "k2 = c - length b"
  have k12: "k1 + k2 = 8 + (k1 + k2 - 8)" using ctot l8 by (simp add: k1_def k2_def)
  have w1: "write_at b idx X = body @ X @ replicate k1 0"
  proof -
    have "write_at b idx X = take idx b @ X @ drop (idx + 8) b"
      using l8 by (simp add: write_at_exact lX)
    also have "drop (idx + 8) b = drop 8 (drop idx b)" by (simp add: add.commute)
    finally show ?thesis by (simp add: tk dr body_def k1_def)
  qed
  have zz: "replicate k1 (0::byte) @ replicate k2 0 = replicate 8 0 @ replicate (k1 + k2 - 8) 0"
  proof -
    have "replicate k1 (0::byte) @ replicate k2 0 = replicate (k1 + k2) 0"
      by (simp only: replicate_add)
    also have "\<dots> = replicate (8 + (k1 + k2 - 8)) 0"
      using k12 by simp
    also have "\<dots> = replicate 8 0 @ replicate (k1 + k2 - 8) 0"
      by (simp only: replicate_add)
    finally show ?thesis .
  qed
  have w2: "take (idx + 16) (write_at b idx X @ replicate (c - length b) 0) = body @ X @ replicate 8 0"
  proof -
    have "write_at b idx X @ replicate (c - length b) 0
          = (body @ X @ replicate 8 0) @ replicate (k1 + k2 - 8) 0"
      unfolding w1 k2_def [symmetric] using zz by simp
    moreover have "length (body @ X @ replicate 8 0) = idx + 16" by (simp add: lbody lX)
    ultimately show ?thesis by (metis append_eq_conv_conj)
  qed
  have bodyeq: "body = replicate 8 0 @ of_nat (length key) # take 1015 key @ enc values"
    by (simp add: body_def pre_def)
  have w3: "write_at (body @ X @ replicate 8 0) 0 (putUint64 (int (idx + 16)))
            = putUint64 (int (idx + 16)) @ of_nat (length key) # take 1015 key @ enc values @ X @ replicate 8 0"
    by (simp add: write_at_def bodyeq)
  have "idx + 16 = 8 + length (of_nat (length key) # take 1015 key @ enc values :: byte list) + 16"
    by (simp add: idx idx0_def n_def min_def)
  moreover have "r = write_at (take (idx + 16) (write_at b idx X @ replicate (c - length b) 0)) 0
                  (putUint64 (int (idx + 16)))"
    unfolding r X_def ..
  then have "r = putUint64 (int (idx + 16)) @ of_nat (length key) # take 1015 key @ enc values @ X @ replicate 8 0"
    by (simp only: w2 w3)
  ultimately have "r = record_bytes e key values"
    by (simp add: record_bytes_def Let_def X_def)
  with v255 show ?thesis by simp
qed


lemma build_record_small:
  assumes v255: "\<forall>v\<in>set values. length v \<le> 255"
    and small: "length key + length (enc values) + 25 \<le> 1024"
  shows "build_record g e key values = Ok (Inr (record_bytes e key values))"
proof -
  define b1 :: "byte list" where "b1 = write_at ((replicate 1024 0)[8 := of_nat (length key)]) 9 key"
  define idx0 where "idx0 = min (length key) (1024 - 9) + 1 + 8"
  have lb1: "length b1 = 1024" by (simp add: b1_def)
  have i0: "idx0 = length key + 9" using small by (simp add: idx0_def)
  have "\<exists>b'. add_values g b1 1024 idx0 values = Ok (Inr (b', 1024, idx0 + length (enc values)))
          \<and> length b' = length b1"
    by (rule add_values_small [OF v255]) (use small in \<open>simp add: lb1 i0\<close>)
  then obtain b' where av: "add_values g b1 1024 idx0 values = Ok (Inr (b', 1024, idx0 + length (enc values)))"
    and lb': "length b' = 1024" by (auto simp: lb1)
  have "\<exists>r. build_record g e key values = Ok (Inr r)"
    using small av lb' unfolding build_record_def Let_def b1_def [symmetric] idx0_def [symmetric]
    by (simp add: i0)
  then obtain r where r: "build_record g e key values = Ok (Inr r)" ..
  with build_record_Inr [OF r] show ?thesis by simp
qed

lemma build_record_too_large:
  assumes "\<exists>v\<in>set values. 255 < length v"
  shows "build_record g e key values = Ok (Inl ValueTooLarge)"
proof -
  have "add_values g (write_at ((replicate 1024 0)[8 := of_nat (length key)]) 9 key) 1024
          (min (length key) (1024 - 9) + 1 + 8) values = Ok (Inl ValueTooLarge)"
    by (rule add_values_too_large [OF assms]) simp
  then show ?thesis by (simp add: build_record_def Let_def)
qed

text \<open>
  For evaluation: a record that fits the first block of the scratch buffer is computed
  from the layout, and a value that is too long is found without building anything.
\<close>

lemma build_record_code [code]:
  "build_record growcap end_off key values =
     (if \<exists>v\<in>set values. 255 < length v then Ok (Inl ValueTooLarge)
      else if length key + length (enc values) + 25 \<le> 1024
      then Ok (Inr (record_bytes end_off key values))
      else
       (let b0 = (replicate 1024 0)[8 := of_nat (length key)];
            n = min (length key) (1024 - 9);
            b1 = write_at b0 9 key;
            idx0 = n + 1 + 8
        in
          case add_values growcap b1 1024 idx0 values of
            Panic \<Rightarrow> Panic
          | Ok (Inl e) \<Rightarrow> Ok (Inl e)
          | Ok (Inr (b, c, idx)) \<Rightarrow>
              (let tot = idx + 16 in
               if length b < idx + 8 then Panic
               else if c < tot then Panic
               else
                 (let b2 = write_at b idx (putUint64 (int tot + end_off));
                      b3 = take tot (b2 @ replicate (c - length b2) 0)
                  in Ok (Inr (write_at b3 0 (putUint64 (int tot))))))))"
proof (cases "\<exists>v\<in>set values. 255 < length v")
  case True
  then show ?thesis by (simp add: build_record_too_large)
next
  case nolong: False
  then have v255: "\<forall>v\<in>set values. length v \<le> 255" by auto
  show ?thesis
  proof (cases "length key + length (enc values) + 25 \<le> 1024")
    case True
    with v255 have "build_record growcap end_off key values = Ok (Inr (record_bytes end_off key values))"
      by (simp add: build_record_small)
    with True nolong show ?thesis by simp
  next
    case False
    show ?thesis by (subst build_record_def) (simp only: nolong False if_False)
  qed
qed

section \<open>The index under the operations\<close>

lemma returned_the_ok: "returned r \<Longrightarrow> r = Some (Ok (the_ok r))"
  by (auto simp: returned_def the_ok_def split: option.splits result.splits)

lemma map_result_eq_Ok [simp]: "(map_result f z = Ok y) = (\<exists>x. z = Ok x \<and> f x = y)"
  by (cases z) auto

lemma keeps_refl: "keeps s s"
  by (simp add: keeps_def)
lemma keeps_trans: "keeps s s1 \<Longrightarrow> keeps s1 s2 \<Longrightarrow> keeps s s2"
  by (auto simp: keeps_def)
lemma keeps_same_keyMap: "keyMap s' = keyMap s \<Longrightarrow> keeps s s'"
  by (simp add: keeps_def)

lemma keyMap_file_write [simp]: "keyMap (file_write s bs) = keyMap s"
  by (simp add: file_write_def)
lemma offset_file_write [simp]: "offset (file_write s bs) = offset s"
  by (simp add: file_write_def)

lemma add_keyMap:
  assumes "add g s p key values wr = Ok (r, s')"
  shows "keyMap s' = keyMap s
       \<or> ((keyMap s key = None \<or> keyMap s key = Some notExist) \<and> r = None
           \<and> keyMap s' = (keyMap s)(key \<mapsto> offset s))"
  using assms
  by (auto simp: add_def Let_def split: result.splits sum.splits write_outcome.splits option.splits if_splits)

lemma add_keeps: "add g s p key values wr = Ok (r, s') \<Longrightarrow> keeps s s'"
  using add_keyMap [of g s p key "values" wr r s'] by (auto simp: keeps_def)

lemma fill_gap_keyMap: "fill_gap s off v = Some (Ok (Some s')) \<Longrightarrow> keyMap s' = keyMap s"
  by (auto simp: fill_gap_def split: option.splits result.splits if_splits prod.splits)

lemma adds_keeps: "adds g s key values wr = Some (Ok (r, s')) \<Longrightarrow> keeps s s'"
  by (auto simp: adds_def keeps_refl split: if_splits option.splits result.splits
           dest: add_keeps fill_gap_keyMap [THEN keeps_same_keyMap])

lemma dels_keyMap: "dels s key values = Some (Ok s') \<Longrightarrow> keyMap s' = keyMap s"
  by (auto simp: dels_def split: option.splits if_splits result.splits)

lemma delsPrefix_keyMap: "delsPrefix s key values = Some (Ok s') \<Longrightarrow> keyMap s' = keyMap s"
  by (auto simp: delsPrefix_def split: option.splits if_splits result.splits)

lemma Exist_keeps: "keeps s (snd (Exist s key))"
  by (auto simp: Exist_def keeps_def split: option.splits)

lemma step_keeps: "step g s p = Some (Ok s') \<Longrightarrow> keeps s s'"
proof (cases p)
  case (OpAdd key vs wr)
  assume "step g s p = Some (Ok s')"
  with OpAdd obtain r where "adds g s key vs wr = Some (Ok (r, s'))"
    by (auto simp: Add_def split: option.splits result.splits)
  then show ?thesis by (rule adds_keeps)
next
  case (OpDel key vs)
  assume "step g s p = Some (Ok s')"
  with OpDel show ?thesis by (auto simp: Del_def dest: dels_keyMap intro: keeps_same_keyMap)
next
  case (OpDelByPrefix key vs)
  assume "step g s p = Some (Ok s')"
  with OpDelByPrefix show ?thesis
    by (auto simp: DelByPrefix_def dest: delsPrefix_keyMap intro: keeps_same_keyMap)
next
  case (OpUpdate key vs wr)
  assume "step g s p = Some (Ok s')"
  with OpUpdate obtain r old s1 where d: "dels s key old = Some (Ok s1)"
    and a: "adds g s1 key vs wr = Some (Ok (r, s'))"
    by (auto simp: Update_def split: option.splits result.splits)
  from d have "keeps s s1" by (auto dest: dels_keyMap intro: keeps_same_keyMap)
  with adds_keeps [OF a] show ?thesis by (blast intro: keeps_trans)
next
  case (OpGet key)
  assume "step g s p = Some (Ok s')"
  with OpGet show ?thesis by (auto simp: keeps_refl split: option.splits result.splits)
next
  case (OpExist key)
  assume "step g s p = Some (Ok s')"
  with OpExist show ?thesis using Exist_keeps [of s key] by simp
qed

lemma run_keeps: "run g s ps = Some (Ok s') \<Longrightarrow> keeps s s'"
proof (induction ps arbitrary: s)
  case Nil
  then show ?case by (simp add: keeps_refl)
next
  case (Cons p ps)
  from Cons.prems obtain s1 where st: "step g s p = Some (Ok s1)" and r: "run g s1 ps = Some (Ok s')"
    by (auto split: option.splits result.splits)
  from step_keeps [OF st] Cons.IH [OF r] show ?case by (rule keeps_trans)
qed

section \<open>The length test of add\<close>

lemma add_too_large:
  "\<exists>v\<in>set values. 255 < length v \<Longrightarrow> add g s p key values wr = Ok (Some ValueTooLarge, s)"
  by (simp add: add_def build_record_too_large)

lemma add_too_large_unchanged:
  "add g s p key values wr = Ok (Some ValueTooLarge, s') \<Longrightarrow> s' = s"
  by (auto simp: add_def Let_def split: result.splits sum.splits write_outcome.splits)

lemma adds_too_large_unchanged:
  "adds g s key values wr = Some (Ok (Some ValueTooLarge, s')) \<Longrightarrow> s' = s"
  by (auto simp: adds_def split: if_splits option.splits result.splits
           dest: add_too_large_unchanged)

lemma add_accepts:
  assumes "\<forall>v\<in>set values. length v \<le> 255" and "length key + length (enc values) + 25 \<le> 1024"
  shows "\<exists>s'. add g s p key values WriteOk = Ok (None, s')"
  by (simp add: add_def build_record_small [OF assms] Let_def)

lemma adds_new_key:
  "keyMap s key = None \<or> keyMap s key = Some notExist \<Longrightarrow> values \<noteq> [] \<Longrightarrow>
   adds g s key values wr = Some (add g s None key values wr)"
  by (auto simp: adds_def)

section \<open>The scans of the code on well-formed records and chains\<close>

lemma hdr_end_eq: "klen_of m r \<le> 246 \<Longrightarrow> hdr_end m r = 9 + klen_of m r"
  unfolding hdr_end_def klen_of_def
  by (simp add: unat_word_ariths)

lemma length_slice: "hi \<le> length m \<Longrightarrow> length (slice m lo hi) = hi - lo"
  by (simp add: slice_def)

lemma slice_Cons: "lo < hi \<Longrightarrow> hi \<le> length m \<Longrightarrow> slice m lo hi = m ! lo # slice m (Suc lo) hi"
  unfolding slice_def
  by (metis Cons_nth_drop_Suc Suc_diff_Suc diff_Suc_Suc less_le_trans take_Suc_Cons Suc_diff_le less_imp_le diff_Suc_1 less_or_eq_imp_le) 

lemma slice_empty [simp]: "hi \<le> lo \<Longrightarrow> slice m lo hi = []"
  by (simp add: slice_def)

lemma take_slice: "lo + n \<le> hi \<Longrightarrow> take n (slice m lo hi) = slice m lo (lo + n)"
  by (simp add: slice_def min_def)

lemma drop_slice: "drop n (slice m lo hi) = slice m (lo + n) hi"
  by (simp add: slice_def drop_take add.commute)

lemma lives_simps [simp]:
  "lives [] = []" "lives (Live v # ss) = v # lives ss" "lives (Tomb # ss) = lives ss"
  by (simp_all add: lives_def)

lemma slice_step_tomb:
  assumes "i < lim" "off + lim \<le> length m" "m ! (off + i) = 0"
  shows "slice m (off + i) (off + lim) = 0 # slice m (off + (i + 1)) (off + lim)"
  using assms by (simp add: slice_Cons)

lemma slice_step_live:
  assumes "i < lim" "off + lim \<le> length m"
  shows "slice m (off + i) (off + lim) = m ! (off + i) # slice m (off + i + 1) (off + lim)"
  using assms by (simp add: slice_Cons)

lemma slice_live_fit:
  assumes "i < lim" "off + lim \<le> length m" "m ! (off + i) \<noteq> 0"
    and "aligned (slice m (off + i) (off + lim))"
  shows "i + unat (m ! (off + i)) + 1 \<le> lim"
    and "aligned (slice m (off + (i + unat (m ! (off + i)) + 1)) (off + lim))"
    and "slots (slice m (off + i) (off + lim))
         = Live (slice m (off + i + 1) (off + i + 1 + unat (m ! (off + i))))
             # slots (slice m (off + (i + unat (m ! (off + i)) + 1)) (off + lim))"
proof -
  define bi where "bi = unat (m ! (off + i))"
  define rest where "rest = slice m (off + i + 1) (off + lim)"
  have sl: "slice m (off + i) (off + lim) = m ! (off + i) # rest"
    unfolding rest_def using assms(1,2) by (rule slice_step_live)
  from assms(4) assms(3) have fit: "bi \<le> length rest" and al: "aligned (drop bi rest)"
    unfolding sl bi_def by simp_all
  have lr: "length rest = lim - (i + 1)"
    unfolding rest_def using assms(2) by (simp add: length_slice)
  from fit lr assms(1) show le: "i + unat (m ! (off + i)) + 1 \<le> lim"
    unfolding bi_def by simp
  have dr: "drop bi rest = slice m (off + (i + bi + 1)) (off + lim)"
    unfolding rest_def drop_slice by (simp add: add.assoc add.commute add.left_commute)
  have tk: "take bi rest = slice m (off + i + 1) (off + i + 1 + bi)"
    unfolding rest_def using le by (intro take_slice) (simp add: bi_def)
  from al [unfolded dr] show "aligned (slice m (off + (i + unat (m ! (off + i)) + 1)) (off + lim))"
    unfolding bi_def .
  have "slots (m ! (off + i) # rest) = Live (take bi rest) # slots (drop bi rest)"
    using assms(3) by (simp add: bi_def)
  then have "slots (slice m (off + i) (off + lim))
         = Live (slice m (off + i + 1) (off + i + 1 + bi))
             # slots (slice m (off + (i + bi + 1)) (off + lim))"
    unfolding sl tk dr .
  then show "slots (slice m (off + i) (off + lim))
         = Live (slice m (off + i + 1) (off + i + 1 + unat (m ! (off + i))))
             # slots (slice m (off + (i + unat (m ! (off + i)) + 1)) (off + lim))"
    unfolding bi_def .
qed

lemma get_loop_aligned:
  "aligned (slice m (off + i) (off + lim)) \<Longrightarrow> off + lim \<le> length m \<Longrightarrow>
   get_loop m off lim i acc = Ok (acc @ lives (slots (slice m (off + i) (off + lim))))"
proof (induction m off lim i acc rule: get_loop.induct)
  case (1 m off lim i acc)
  show ?case
  proof (cases "i < lim")
    case False
    then show ?thesis by (subst get_loop.simps) simp
  next
    case True
    show ?thesis
    proof (cases "m ! (off + i) = 0")
      case z: True
      note sl = slice_step_tomb [OF True "1.prems"(2) z]
      from "1.prems"(1) have al: "aligned (slice m (off + (i + 1)) (off + lim))"
        unfolding sl by simp
      have "get_loop m off lim i acc = get_loop m off lim (i + 1) acc"
        using True z by (subst get_loop.simps) simp
      also note "1.IH"(1) [OF True z al "1.prems"(2)]
      finally show ?thesis unfolding sl by simp
    next
      case nz: False
      define bi where "bi = unat (m ! (off + i))"
      note f = slice_live_fit [OF True "1.prems"(2) nz "1.prems"(1), folded bi_def]
      from f(1) "1.prems"(2) have inb: "off + i + 1 + bi \<le> length m" by simp
      have "get_loop m off lim i acc
            = get_loop m off lim (i + bi + 1) (acc @ [slice m (off + i + 1) (off + i + 1 + bi)])"
        using True nz inb by (subst get_loop.simps) (simp add: bi_def Let_def)
      also note "1.IH"(2) [OF True nz bi_def inb f(2) "1.prems"(2)]
      finally show ?thesis unfolding f(3) by simp
    qed
  qed
qed


lemma wf_record_facts:
  assumes "wf_record m lim r"
  shows "int (total_of m r) = bigUint64 (slice m r (r + 8))"
    and "25 \<le> total_of m r" and "r + total_of m r \<le> length m" and "r + total_of m r \<le> lim"
    and "hdr_end m r = 9 + klen_of m r" and "9 + klen_of m r + 16 \<le> total_of m r"
    and "aligned (value_area m r)"
    and "read_total m (int r) = Ok (int (total_of m r))"
proof -
  from assms show t: "int (total_of m r) = bigUint64 (slice m r (r + 8))"
    by (simp add: wf_record_def total_of_def)
  from assms show "25 \<le> total_of m r" by (simp add: wf_record_def)
  from assms show l: "r + total_of m r \<le> length m" by (simp add: wf_record_def)
  from assms show "r + total_of m r \<le> lim" by (simp add: wf_record_def)
  from assms show "hdr_end m r = 9 + klen_of m r" by (simp add: wf_record_def hdr_end_eq)
  from assms show k: "9 + klen_of m r + 16 \<le> total_of m r" by (simp add: wf_record_def)
  from assms show "aligned (value_area m r)" by (simp add: wf_record_def)
  from l k have "r + 8 \<le> length m" by simp
  then show "read_total m (int r) = Ok (int (total_of m r))"
    by (simp add: read_total_def in_bounds_def t)
qed

lemma get_wf:
  assumes "wf_record m lim r"
  shows "get m (int r) = Ok (record_values m r, next_of m r)"
proof -
  note f = wf_record_facts [OF assms]
  have ib: "in_bounds m (int r) (int r + int (total_of m r)) \<and> 16 \<le> int (total_of m r)"
    using f(2,3) by (simp add: in_bounds_def)
  have va: "value_area m r = slice m (r + (9 + klen_of m r)) (r + (total_of m r - 16))"
    using f(2) by (simp add: value_area_def add.assoc)
  have "get_loop m r (total_of m r - 16) (9 + klen_of m r) []
        = Ok ([] @ lives (slots (slice m (r + (9 + klen_of m r)) (r + (total_of m r - 16)))))"
    by (rule get_loop_aligned) (use f(7) f(3) in \<open>simp_all add: va\<close>)
  then have gl: "get_loop m r (total_of m r - 16) (hdr_end m r) [] = Ok (record_values m r)"
    by (simp add: f(5) record_values_def va)
  show ?thesis
    unfolding get_def f(8) using ib gl
    by (simp add: next_of_def)
qed

lemma gets_loop_chain:
  "is_chain m lim rs \<Longrightarrow>
   gets_loop m (int (hd rs)) acc = Some (Ok (acc @ concat (map (record_values m) rs)))"
proof (induction m lim rs arbitrary: acc rule: is_chain.induct)
  case (1 m lim)
  then show ?case by simp
next
  case (2 m lim r)
  then have "get m (int r) = Ok (record_values m r, 0)" using get_wf [of m lim r] by simp
  then show ?case by (subst gets_loop.simps) simp
next
  case (3 m lim r r' rs)
  then have g: "get m (int r) = Ok (record_values m r, int r')" using get_wf [of m lim r] by simp
  from "3.prems" have pos: "r' \<noteq> 0" using wf_record_facts(2) [of m lim r] by auto
  from "3.prems" have ch: "is_chain m lim (r' # rs)" by simp
  have "gets_loop m (int r) acc = gets_loop m (int r') (acc @ record_values m r)"
    using g pos by (subst gets_loop.simps) simp
  also have "\<dots> = Some (Ok ((acc @ record_values m r) @ concat (map (record_values m) (r' # rs))))"
    using "3.IH" [OF ch] by simp
  finally show ?case by simp
qed


lemma zrun_simps [simp]:
  "zrun [] = 0" "zrun (0 # bs) = Suc (zrun bs)" "b \<noteq> 0 \<Longrightarrow> zrun (b # bs) = 0"
  by (simp_all add: zrun_def)

lemma zrun_le: "zrun bs \<le> length bs"
  by (simp add: zrun_def length_takeWhile_le)

lemma tomb_run_slots: "length (takeWhile is_tomb (slots bs)) = zrun bs"
  by (induction bs rule: slots.induct) (simp_all add: is_tomb_def)

lemma empty1_loop_in_gap:
  "off + lim \<le> length m \<Longrightarrow>
   empty1_loop m off lim i True start
     = (start,
        (if i + zrun (slice m (off + i) (off + lim)) < lim
         then Some (i + zrun (slice m (off + i) (off + lim))) else None),
        True)"
proof (induction "lim - i" arbitrary: i)
  case 0
  then have "\<not> i < lim" by simp
  then show ?case by (subst empty1_loop.simps) simp
next
  case (Suc n)
  then have lt: "i < lim" by simp
  show ?case
  proof (cases "m ! (off + i) = 0")
    case True
    note sl = slice_step_tomb [OF lt Suc.prems True]
    have n: "n = lim - (i + 1)" using Suc.hyps(2) by simp
    have "empty1_loop m off lim i True start = empty1_loop m off lim (i + 1) True start"
      using lt True by (subst empty1_loop.simps) simp
    also note Suc.hyps(1) [OF n Suc.prems]
    finally show ?thesis unfolding sl by simp
  next
    case False
    have sl: "slice m (off + i) (off + lim) = m ! (off + i) # slice m (off + i + 1) (off + lim)"
      using lt Suc.prems by (rule slice_step_live)
    show ?thesis using lt False unfolding sl by (subst empty1_loop.simps) simp
  qed
qed

lemma empty1_loop_scan:
  "off + lim \<le> length m \<Longrightarrow> aligned (slice m (off + i) (off + lim)) \<Longrightarrow>
   empty1_loop m off lim i False 0
     = gap_result lim (gaps i (slots (slice m (off + i) (off + lim))))"
proof (induction "lim - i" arbitrary: i rule: less_induct)
  case less
  show ?case
  proof (cases "i < lim")
    case False
    then show ?thesis by (subst empty1_loop.simps) (simp add: gap_result_def)
  next
    case lt: True
    show ?thesis
    proof (cases "m ! (off + i) = 0")
      case True
      note sl = slice_step_tomb [OF lt less.prems(1) True]
      have "empty1_loop m off lim i False 0 = empty1_loop m off lim (i + 1) True i"
        using lt True by (subst empty1_loop.simps) simp
      also note empty1_loop_in_gap [OF less.prems(1)]
      finally show ?thesis
        unfolding sl by (simp add: gap_result_def tomb_run_slots)
    next
      case False
      define bi where "bi = unat (m ! (off + i))"
      note f = slice_live_fit [OF lt less.prems(1) False less.prems(2), folded bi_def]
      have len: "length (slice m (off + i + 1) (off + i + 1 + bi)) = bi"
        using f(1) less.prems(1) by (simp add: length_slice)
      have "empty1_loop m off lim i False 0 = empty1_loop m off lim (i + bi + 1) False 0"
        using lt False by (subst empty1_loop.simps) (simp add: bi_def)
      also have "\<dots> = gap_result lim (gaps (i + bi + 1) (slots (slice m (off + (i + bi + 1)) (off + lim))))"
        by (rule less.hyps) (use lt f(2) less.prems(1) in simp_all)
      also have "\<dots> = gap_result lim (gaps i (slots (slice m (off + i) (off + lim))))"
        unfolding f(3) using f(1) less.prems(1) by (simp add: length_slice)
      finally show ?thesis .
    qed
  qed
qed


lemma dropWhile_tomb_slots: "dropWhile is_tomb (slots bs) = slots (dropWhile (\<lambda>b. b = 0) bs)"
  by (induction bs rule: slots.induct) (simp_all add: is_tomb_def)

lemma aligned_dropWhile: "aligned bs \<Longrightarrow> aligned (dropWhile (\<lambda>b. b = 0) bs)"
  by (induction bs rule: aligned.induct) (simp_all split: if_splits)

lemma gaps_bounds:
  "aligned bs \<Longrightarrow> (st, e) \<in> set (gaps i (slots bs)) \<Longrightarrow> i \<le> st \<and> st < e \<and> e \<le> i + length bs"
proof (induction "length bs" arbitrary: bs i rule: less_induct)
  case less
  show ?case
  proof (cases bs)
    case Nil
    with less.prems show ?thesis by simp
  next
    case (Cons n bs')
    show ?thesis
    proof (cases "n = 0")
      case True
      define k where "k = zrun bs'"
      define rest where "rest = dropWhile (\<lambda>b. b = 0) bs'"
      have lr: "length rest = length bs' - k"
        unfolding rest_def k_def zrun_def
        by (metis length_append takeWhile_dropWhile_id add_diff_cancel_left')
      have kl: "k \<le> length bs'" by (simp add: k_def zrun_le)
      have g: "gaps i (slots bs) = (i, i + 1 + k) # gaps (i + 1 + k) (slots rest)"
        by (simp add: Cons True tomb_run_slots dropWhile_tomb_slots k_def rest_def)
      from less.prems(1) have al: "aligned rest"
        by (simp add: Cons True rest_def aligned_dropWhile)
      from less.prems(2) g consider "(st, e) = (i, i + 1 + k)" | "(st, e) \<in> set (gaps (i + 1 + k) (slots rest))"
        by auto
      then show ?thesis
      proof cases
        case 1
        then show ?thesis using kl by (simp add: Cons)
      next
        case 2
        have "length rest < length bs" using lr by (simp add: Cons)
        from less.hyps [OF this al 2] lr kl show ?thesis by (simp add: Cons)
      qed
    next
      case False
      from less.prems(1) have fit: "unat n \<le> length bs'" and al: "aligned (drop (unat n) bs')"
        by (simp_all add: Cons False)
      from less.prems(2) have m: "(st, e) \<in> set (gaps (i + 1 + unat n) (slots (drop (unat n) bs')))"
        using fit by (simp add: Cons False)
      have "length (drop (unat n) bs') < length bs" by (simp add: Cons)
      from less.hyps [OF this al m] fit show ?thesis by (simp add: Cons)
    qed
  qed
qed

lemma empty1_wf:
  assumes "wf_record m lim r"
  shows "empty1 m (int r) = Ok (empty1_spec m r)"
proof -
  note f = wf_record_facts [OF assms]
  have ib: "in_bounds m (int r) (int r + int (total_of m r)) \<and> 16 \<le> int (total_of m r)"
    using f(2,3) by (simp add: in_bounds_def)
  have va: "value_area m r = slice m (r + (9 + klen_of m r)) (r + (total_of m r - 16))"
    using f(2) by (simp add: value_area_def add.assoc)
  have lva: "length (value_area m r) = total_of m r - 16 - (9 + klen_of m r)"
    unfolding va using f(2,3) by (simp add: length_slice)
  have scan: "empty1_loop m r (total_of m r - 16) (hdr_end m r) False 0
        = gap_result (total_of m r - 16) (record_gaps m r)"
    unfolding f(5) record_gaps_def va
    by (rule empty1_loop_scan) (use f(7) f(3) in \<open>simp_all add: va\<close>)
  show ?thesis
  proof (cases "record_gaps m r")
    case Nil
    then show ?thesis
      unfolding empty1_def f(8) using ib scan
      by (simp add: gap_result_def empty1_spec_def next_of_def)
  next
    case (Cons g gs)
    obtain st e where g: "g = (st, e)" by (cases g)
    have "(st, e) \<in> set (gaps (9 + klen_of m r) (slots (value_area m r)))"
      using Cons g by (simp add: record_gaps_def)
    from gaps_bounds [OF f(7) this] lva f(6) have ele: "e \<le> total_of m r - 16" by simp
    show ?thesis
      unfolding empty1_def f(8) using ib scan ele f(2)
      by (auto simp: gap_result_def empty1_spec_def next_of_def Cons g)
  qed
qed

lemma empty_chain:
  "is_chain m lim rs \<Longrightarrow> empty m (int (hd rs)) = Some (Ok (empty_spec m rs))"
proof (induction m lim rs rule: is_chain.induct)
  case (1 m lim)
  then show ?case by simp
next
  case (2 m lim r)
  then have e1: "empty1 m (int r) = Ok (empty1_spec m r)" and n0: "next_of m r = 0"
    using empty1_wf [of m lim r] by simp_all
  show ?case
    by (subst empty.simps)
       (auto simp: e1 empty1_spec_def empty_spec_def n0 split: list.splits)
next
  case (3 m lim r r' rs)
  then have e1: "empty1 m (int r) = Ok (empty1_spec m r)" and nx: "next_of m r = int r'"
    using empty1_wf [of m lim r] by simp_all
  from "3.prems" have pos: "r' \<noteq> 0" using wf_record_facts(2) [of m lim r] by auto
  from "3.prems" have ch: "is_chain m lim (r' # rs)" by simp
  show ?case
  proof (cases "record_gaps m r")
    case Nil
    have "empty m (int r) = empty m (int r')"
      using pos by (subst empty.simps) (simp add: e1 empty1_spec_def Nil nx)
    also have "\<dots> = Some (Ok (empty_spec m (r' # rs)))"
      using "3.IH" [OF ch] by simp
    also have "empty_spec m (r' # rs) = empty_spec m (r # r' # rs)"
    proof -
      have fg: "first_gap m (r # r' # rs) = first_gap m (r' # rs)" by (simp add: Nil)
      have lst: "last (r # r' # rs) = last (r' # rs)" by simp
      show ?thesis unfolding empty_spec_def fg lst ..
    qed
    finally show ?thesis by simp
  next
    case (Cons g gs)
    then show ?thesis
      by (subst empty.simps) (auto simp: e1 empty1_spec_def empty_spec_def split: prod.splits)
  qed
qed


lemma b8_wf:
  assumes "wf_record (bytesAddr s) lim r" and "int lim \<le> offset s"
  shows "b8 s (int r) = Ok (next_of (bytesAddr s) r, Some (r + total_of (bytesAddr s) r - 8))"
proof -
  note f = wf_record_facts [OF assms(1)]
  have lt: "\<not> offset s \<le> int r" using f(2,4) assms(2) by simp
  have n1: "nat (int r + int (total_of (bytesAddr s) r) - 8) = r + total_of (bytesAddr s) r - 8"
    using f(2) by simp
  have n2: "nat (int r + int (total_of (bytesAddr s) r)) = r + total_of (bytesAddr s) r"
    by simp
  show ?thesis
    unfolding b8_def f(8) using lt f(2,3)
    by (simp add: in_bounds_def next_of_def n1 n2 del: nat_int of_nat_add)
qed

lemma getB8_chain:
  "is_chain (bytesAddr s) lim rs \<Longrightarrow> int lim \<le> offset s \<Longrightarrow>
   getB8byOffset s (int (hd rs))
     = Some (Ok (Some (last rs + total_of (bytesAddr s) (last rs) - 8)))"
proof (induction rs)
  case Nil
  then show ?case by simp
next
  case (Cons r rs)
  show ?case
  proof (cases rs)
    case Nil
    with Cons.prems have "b8 s (int r) = Ok (0, Some (r + total_of (bytesAddr s) r - 8))"
      using b8_wf [of s lim r] by simp
    then show ?thesis by (subst getB8byOffset.simps) (simp add: Nil)
  next
    case (Cons r' rs')
    with Cons.prems have b: "b8 s (int r) = Ok (int r', Some (r + total_of (bytesAddr s) r - 8))"
      using b8_wf [of s lim r] by simp
    from Cons.prems Cons have pos: "r' \<noteq> 0"
      using wf_record_facts(2) [of "bytesAddr s" lim r] by auto
    from Cons.prems Cons have ch: "is_chain (bytesAddr s) lim rs" by simp
    have "getB8byOffset s (int r) = getB8byOffset s (int r')"
      using pos by (subst getB8byOffset.simps) (simp add: b)
    also have "\<dots> = Some (Ok (Some (last rs + total_of (bytesAddr s) (last rs) - 8)))"
      using Cons.IH [OF ch Cons.prems(2)] by (simp add: Cons)
    finally show ?thesis by (simp add: Cons)
  qed
qed

lemma first_gap_bounds:
  "is_chain m lim rs \<Longrightarrow> first_gap m rs = Some (r, st, e) \<Longrightarrow>
   wf_record m lim r \<and> 9 + klen_of m r \<le> st \<and> st < e \<and> e \<le> total_of m r - 16"
proof (induction m lim rs rule: is_chain.induct)
  case (1 m lim)
  then show ?case by simp
next
  case (2 m lim r0)
  then obtain gs where g: "record_gaps m r0 = (st, e) # gs" and r: "r = r0"
    by (auto split: list.splits)
  from 2 have wf: "wf_record m lim r0" by simp
  note f = wf_record_facts [OF wf]
  have "(st, e) \<in> set (gaps (9 + klen_of m r0) (slots (value_area m r0)))"
    using g by (simp add: record_gaps_def)
  from gaps_bounds [OF f(7) this] f(2,3,6) show ?case
    unfolding r using wf by (simp add: value_area_def length_slice)
next
  case (3 m lim r0 r' rs)
  show ?case
  proof (cases "record_gaps m r0")
    case Nil
    with "3.prems" have "first_gap m (r' # rs) = Some (r, st, e)" by simp
    with "3.IH" "3.prems"(1) show ?thesis by simp
  next
    case (Cons g gs)
    with "3.prems"(2) have g: "record_gaps m r0 = (st, e) # gs" and r: "r = r0"
      by (auto split: prod.splits)
    from "3.prems" have wf: "wf_record m lim r0" by simp
    note f = wf_record_facts [OF wf]
    have "(st, e) \<in> set (gaps (9 + klen_of m r0) (slots (value_area m r0)))"
      using g by (simp add: record_gaps_def)
    from gaps_bounds [OF f(7) this] f(2,3,6) show ?thesis
      unfolding r using wf by (simp add: value_area_def length_slice)
  qed
qed


lemma fill_gap_no_gap:
  assumes "is_chain (bytesAddr s) lim (off # rs)"
    and "first_gap (bytesAddr s) (off # rs) = None"
  shows "fill_gap s (int off) v = Some (Ok None)"
proof -
  have e: "empty (bytesAddr s) (int off) = Some (Ok (empty_spec (bytesAddr s) (off # rs)))"
    using empty_chain [OF assms(1)] by simp
  have es: "empty_spec (bytesAddr s) (off # rs) = (int (last (off # rs)), 0, 0, False)"
    unfolding empty_spec_def assms(2) by simp
  show ?thesis
    unfolding fill_gap_def e es by simp
qed

lemma fill_gap_no_fit:
  assumes "is_chain (bytesAddr s) lim (off # rs)"
    and "first_gap (bytesAddr s) (off # rs) = Some (r, st, e)"
    and "\<not> length v < e - st"
  shows "fill_gap s (int off) v = Some (Ok None)"
proof -
  have e: "empty (bytesAddr s) (int off) = Some (Ok (empty_spec (bytesAddr s) (off # rs)))"
    using empty_chain [OF assms(1)] by simp
  have es: "empty_spec (bytesAddr s) (off # rs) = (int r, int st, int e, True)"
    unfolding empty_spec_def assms(2) by simp
  have nofit: "\<not> int (length v) < int e - int st" using assms(3) by linarith
  show ?thesis
    unfolding fill_gap_def e es using nofit by simp
qed

lemma fill_gap_fit:
  assumes "is_chain (bytesAddr s) lim (off # rs)"
    and "first_gap (bytesAddr s) (off # rs) = Some (r, st, e)"
    and "length v < e - st"
  shows "fill_gap s (int off) v =
     (if r + total_of (bytesAddr s) off \<le> length (bytesAddr s) \<and> st < total_of (bytesAddr s) off
      then Some (Ok (Some (s\<lparr>bytesAddr :=
             write_at ((bytesAddr s)[r + st := of_nat (length v)]) (r + st + 1)
               (take (total_of (bytesAddr s) off - st - 1) v)\<rparr>)))
      else Some Panic)"
proof -
  have e: "empty (bytesAddr s) (int off) = Some (Ok (empty_spec (bytesAddr s) (off # rs)))"
    using empty_chain [OF assms(1)] by simp
  have es: "empty_spec (bytesAddr s) (off # rs) = (int r, int st, int e, True)"
    unfolding empty_spec_def assms(2) by simp
  have fit: "int (length v) < int e - int st" using assms(3) by linarith
  from assms(1) have wf: "wf_record (bytesAddr s) lim off" by (cases rs) simp_all
  note f = wf_record_facts [OF wf]
  have n1: "nat (int r + int st) = r + st" by (simp add: nat_add_distrib)
  have n2: "nat (int (total_of (bytesAddr s) off) - int st - 1) = total_of (bytesAddr s) off - st - 1"
    by simp
  have ib: "in_bounds (bytesAddr s) (int r) (int r + int (total_of (bytesAddr s) off))
            \<longleftrightarrow> r + total_of (bytesAddr s) off \<le> length (bytesAddr s)"
    unfolding in_bounds_def by linarith
  show ?thesis
    unfolding fill_gap_def e es
    using fit by (simp add: f(8) ib n1 n2 del: of_nat_add)
qed

lemma adds_single:
  assumes "keyMap s key = Some (int off)"
  shows "adds g s key [v] wr =
     (case fill_gap s (int off) v of
        None \<Rightarrow> None
      | Some Panic \<Rightarrow> Some Panic
      | Some (Ok (Some s')) \<Rightarrow> Some (Ok (None, s'))
      | Some (Ok None) \<Rightarrow>
          (case getB8byOffset s (int off) of
             None \<Rightarrow> None
           | Some Panic \<Rightarrow> Some Panic
           | Some (Ok p) \<Rightarrow> Some (add g s p key [v] wr)))"
  by (simp add: adds_def assms notExist_def)

section \<open>Appending a record to a well-formed chain\<close>

lemma go_int_id: "- (2 ^ 63) \<le> x \<Longrightarrow> x < 2 ^ 63 \<Longrightarrow> go_int x = x"
  by (simp add: go_int_def)

lemma byte_step: "push_bit 8 (drop_bit (n + 8) v) OR take_bit 8 (drop_bit n v) = drop_bit n (v::int)"
  by (rule bit_eqI) (auto simp: bit_simps)

lemma drop_bit_le: "0 \<le> v \<Longrightarrow> drop_bit n (v::int) \<le> v"
  unfolding drop_bit_int_def using int_div_le_self by force

lemma bigUint64_putUint64:
  assumes "0 \<le> v" "v < 2 ^ 63"
  shows "bigUint64 (putUint64 v) = v"
proof -
  have tb: "take_bit 64 v = v" using assms by (simp add: take_bit_int_eq_self)
  have st: "go_int (push_bit 8 (drop_bit (n + 8) v) OR uint (word_of_int (drop_bit n v) :: byte)) = drop_bit n v" for n
  proof -
    have ge: "0 \<le> drop_bit n v" using assms(1) by simp
    have lt: "drop_bit n v < 2 ^ 63" using drop_bit_le [OF assms(1), of n] assms(2) by simp
    have "- (2 ^ 63) \<le> (0::int)" by simp
    from this ge have "- (2 ^ 63) \<le> drop_bit n v" by (rule order_trans)
    then have "go_int (drop_bit n v) = drop_bit n v" using lt by (rule go_int_id)
    then show ?thesis by (simp add: uint_word_of_int_eq byte_step)
  qed
  have d64: "drop_bit 64 v = 0" using assms by (simp add: drop_bit_int_def)
  have g0: "go_int 0 = 0" by (simp add: go_int_def)
  show ?thesis
    unfolding bigUint64_def putUint64_def tb
    using st [of 56] st [of 48] st [of 40] st [of 32] st [of 24] st [of 16] st [of 8] st [of 0] d64
    by simp
qed

lemma bigUint64_zeros: "bigUint64 (replicate 8 0) = 0"
  by (simp add: bigUint64_def go_int_def numeral_eq_Suc)


lemma nth_write_at:
  "i < length m \<Longrightarrow>
   write_at m p bs ! i = (if p \<le> i \<and> i < p + length bs then bs ! (i - p) else m ! i)"
  unfolding write_at_def
  by (auto simp: nth_append min_def not_less)

lemma slice_cong:
  assumes "length m' = length m" and "hi \<le> length m"
    and "\<And>i. lo \<le> i \<Longrightarrow> i < hi \<Longrightarrow> m' ! i = m ! i"
  shows "slice m' lo hi = slice m lo hi"
  unfolding slice_def
proof (rule nth_equalityI)
  show "length (take (hi - lo) (drop lo m')) = length (take (hi - lo) (drop lo m))"
    by (simp add: assms(1))
next
  fix i
  assume "i < length (take (hi - lo) (drop lo m'))"
  then have i: "i < hi - lo" and l: "lo + i < length m" using assms(1,2) by simp_all
  from i have "m' ! (lo + i) = m ! (lo + i)" by (intro assms(3)) simp_all
  with i l show "take (hi - lo) (drop lo m') ! i = take (hi - lo) (drop lo m) ! i"
    by (simp add: assms(1))
qed

lemma slice_write_at_same:
  assumes "p + length bs \<le> length m"
  shows "slice (write_at m p bs) p (p + length bs) = bs"
  unfolding slice_def
  by (rule nth_equalityI) (use assms in \<open>auto simp: nth_write_at\<close>)

lemma slice_sub:
  assumes "slice m lo hi = bs" and "hi \<le> length m" and "a + b \<le> length bs" and "lo \<le> hi"
  shows "slice m (lo + a) (lo + a + b) = take b (drop a bs)"
proof -
  from assms(1,2) have l: "length bs = hi - lo" by (auto simp: length_slice)
  have "take b (drop a (slice m lo hi)) = slice m (lo + a) (lo + a + b)"
    unfolding drop_slice using assms(3,4) l by (intro take_slice) simp
  then show ?thesis by (simp add: assms(1))
qed

lemma byte_of_length:
  assumes "length v \<le> 255"
  shows "unat (of_nat (length v) :: byte) = length v"
    and "(of_nat (length v) :: byte) = 0 \<longleftrightarrow> v = []"
proof -
  show u: "unat (of_nat (length v) :: byte) = length v"
    using assms by (simp add: unat_of_nat take_bit_nat_eq_self)
  have "(of_nat (length v) :: byte) = 0 \<longleftrightarrow> unat (of_nat (length v) :: byte) = 0"
    by (simp add: unat_eq_0)
  then show "(of_nat (length v) :: byte) = 0 \<longleftrightarrow> v = []" by (simp add: u)
qed

lemma slots_enc:
  "\<forall>v\<in>set vs. length v \<le> 255 \<Longrightarrow>
   aligned (enc vs @ rest) = aligned rest \<and> lives (slots (enc vs)) = filter (\<lambda>v. v \<noteq> []) vs"
proof (induction vs)
  case Nil
  then show ?case by simp
next
  case (Cons v vs)
  then have v: "length v \<le> 255" and ih: "aligned (enc vs @ rest) = aligned rest"
    "lives (slots (enc vs)) = filter (\<lambda>v. v \<noteq> []) vs"
    by simp_all
  note b = byte_of_length [OF v]
  show ?case
  proof (cases "v = []")
    case True
    then show ?thesis using ih by simp
  next
    case False
    then have nz: "(of_nat (length v) :: byte) \<noteq> 0" using b(2) by simp
    show ?thesis using False nz ih by (simp add: b(1))
  qed
qed


lemma nth_slice: "i < hi - lo \<Longrightarrow> hi \<le> length m \<Longrightarrow> slice m lo hi ! i = m ! (lo + i)"
  by (simp add: slice_def)

lemma length_record_bytes:
  "length (record_bytes e key values) = 25 + length (take 1015 key) + length (enc values)"
  by (simp add: record_bytes_def Let_def)

lemma new_record:
  assumes rb: "slice m N (N + length (record_bytes e key values)) = record_bytes e key values"
    and lim: "N + length (record_bytes e key values) \<le> lim" "lim \<le> length m"
    and key: "length key \<le> 246"
    and v255: "\<forall>v\<in>set values. length v \<le> 255"
    and small: "int (length (record_bytes e key values)) < 2 ^ 63"
  shows "wf_record m lim N" and "next_of m N = 0"
    and "record_values m N = filter (\<lambda>v. v \<noteq> []) values"
    and "total_of m N = length (record_bytes e key values)"
proof -
  define k where "k = length key"
  define n where "n = length (enc values)"
  define tot where "tot = 25 + k + n"
  define T where "T = putUint64 (int tot)"
  define X where "X = putUint64 (int tot + e)"
  define rec where "rec = record_bytes e key values"
  have tk: "take 1015 key = key" using key by simp
  have lrec: "length rec = tot"
    unfolding rec_def length_record_bytes tot_def k_def n_def tk by simp
  have receq: "rec = T @ of_nat k # key @ enc values @ X @ replicate 8 0"
    unfolding rec_def record_bytes_def Let_def T_def X_def tot_def k_def n_def tk
    by (simp add: add.assoc)
  have lT: "length T = 8" and lX: "length X = 8" by (simp_all add: T_def X_def)
  have sl: "slice m N (N + tot) = rec" using rb by (simp add: rec_def [symmetric] lrec)
  have hi: "N + tot \<le> length m" using lim by (simp add: rec_def [symmetric] lrec)
  have s1: "slice m N (N + 8) = T"
    using slice_sub [OF sl hi, of 0 8] by (simp add: lrec tot_def receq lT)
  have tot63: "int tot < 2 ^ 63" using small by (simp add: rec_def [symmetric] lrec)
  have total: "bigUint64 (slice m N (N + 8)) = int tot"
    unfolding s1 T_def using tot63 by (intro bigUint64_putUint64) simp_all
  then show t: "total_of m N = length (record_bytes e key values)"
    by (simp add: total_of_def rec_def [symmetric] lrec)
  have t': "total_of m N = tot" using total by (simp add: total_of_def)
  have "slice m N (N + tot) ! 8 = m ! (N + 8)"
    by (rule nth_slice) (use hi in \<open>simp_all add: tot_def\<close>)
  then have b8: "m ! (N + 8) = of_nat k" by (simp add: sl receq nth_append lT)
  have kl: "klen_of m N = k"
    unfolding klen_of_def b8 using key by (simp add: k_def unat_of_nat take_bit_nat_eq_self)
  have "slice m (N + (9 + k)) (N + (9 + k) + n) = take n (drop (9 + k) rec)"
    by (rule slice_sub [OF sl hi]) (simp_all add: lrec tot_def)
  also have "\<dots> = enc values"
    by (simp add: receq lT k_def n_def)
  finally have va0: "slice m (N + (9 + k)) (N + (9 + k) + n) = enc values" .
  have e1: "N + 9 + klen_of m N = N + (9 + k)" by (simp add: kl)
  have e2: "N + total_of m N - 16 = N + (9 + k) + n" by (simp add: t' tot_def)
  have va: "value_area m N = enc values"
    unfolding value_area_def e1 e2 by (fact va0)
  have "slice m (N + (tot - 8)) (N + (tot - 8) + 8) = take 8 (drop (tot - 8) rec)"
    by (rule slice_sub [OF sl hi]) (simp_all add: lrec tot_def)
  also have "\<dots> = replicate 8 0"
  proof -
    define P where "P = T @ of_nat k # key @ enc values @ X"
    have lP: "length P = tot - 8" by (simp add: P_def lT lX tot_def k_def n_def)
    have "rec = P @ replicate 8 0" by (simp add: receq P_def)
    then have "drop (length P) rec = replicate 8 0" by simp
    then show ?thesis unfolding lP by simp
  qed
  finally have nx0: "slice m (N + (tot - 8)) (N + (tot - 8) + 8) = replicate 8 0" .
  have e3: "N + total_of m N - 8 = N + (tot - 8)" by (simp add: t' tot_def)
  have e4: "N + total_of m N = N + (tot - 8) + 8" by (simp add: t' tot_def)
  have "slice m (N + total_of m N - 8) (N + total_of m N) = replicate 8 0"
    unfolding e3 unfolding e4 by (fact nx0)
  then show "next_of m N = 0" by (simp only: next_of_def bigUint64_zeros)
  note se = slots_enc [OF v255, of "[]"]
  from se show "record_values m N = filter (\<lambda>v. v \<noteq> []) values"
    by (simp add: record_values_def va)
  from se have al: "aligned (value_area m N)" by (simp add: va)
  show "wf_record m lim N"
    unfolding wf_record_def using lim al key total
    by (simp add: kl t' rec_def [symmetric] lrec tot_def k_def)
qed


lemma record_frame:
  assumes wf: "wf_record m lim r" and len: "length m' = length m"
    and same: "\<And>i. r \<le> i \<Longrightarrow> i < r + total_of m r - 8 \<Longrightarrow> m' ! i = m ! i"
    and lims: "lim \<le> lim'" "lim' \<le> length m"
  shows "total_of m' r = total_of m r" and "klen_of m' r = klen_of m r"
    and "value_area m' r = value_area m r" and "wf_record m' lim' r"
    and "record_values m' r = record_values m r"
proof -
  note f = wf_record_facts [OF wf]
  have "slice m' r (r + 8) = slice m r (r + 8)"
    by (rule slice_cong [OF len]) (use f(2,3) same in simp_all)
  then have b: "bigUint64 (slice m' r (r + 8)) = bigUint64 (slice m r (r + 8))"
    by simp
  then show t: "total_of m' r = total_of m r"
    by (simp add: total_of_def)
  have "m' ! (r + 8) = m ! (r + 8)" by (rule same) (use f(2) in simp_all)
  then show k: "klen_of m' r = klen_of m r" by (simp add: klen_of_def)
  have "slice m' (r + 9 + klen_of m r) (r + total_of m r - 16)
        = slice m (r + 9 + klen_of m r) (r + total_of m r - 16)"
    by (rule slice_cong [OF len]) (use f(2,3) same in simp_all)
  then show v: "value_area m' r = value_area m r" by (simp add: value_area_def t k)
  then show "record_values m' r = record_values m r" by (simp add: record_values_def)
  from wf lims show "wf_record m' lim' r"
    unfolding wf_record_def t k v b by (simp add: len)
qed

lemma next_frame:
  assumes wf: "wf_record m lim r" and len: "length m' = length m"
    and same: "\<And>i. r \<le> i \<Longrightarrow> i < r + total_of m r \<Longrightarrow> m' ! i = m ! i"
  shows "next_of m' r = next_of m r"
proof -
  note f = wf_record_facts [OF wf]
  have "slice m' r (r + 8) = slice m r (r + 8)"
    by (rule slice_cong [OF len]) (use f(2,3) same in simp_all)
  then have "total_of m' r = total_of m r"
    by (simp add: total_of_def)
  moreover have "slice m' (r + total_of m r - 8) (r + total_of m r)
        = slice m (r + total_of m r - 8) (r + total_of m r)"
    by (rule slice_cong [OF len]) (use f(2,3) same in simp_all)
  ultimately show ?thesis by (simp add: next_of_def)
qed

lemma chain_last_ge: "is_chain m lim (r # rs) \<Longrightarrow> r \<le> last (r # rs)"
proof (induction rs arbitrary: r)
  case Nil
  then show ?case by simp
next
  case (Cons r' rs)
  then have "r \<le> r'" and "is_chain m lim (r' # rs)" by simp_all
  with Cons.IH [of r'] show ?case by simp
qed

lemma is_chain_extend:
  assumes "is_chain m lim rs"
    and "length m' = length m"
    and "\<And>i. i < lim \<Longrightarrow> i < tp \<or> tp + 8 \<le> i \<Longrightarrow> m' ! i = m ! i"
    and "tp = last rs + total_of m (last rs) - 8"
    and "bigUint64 (slice m' tp (tp + 8)) = int N"
    and "wf_record m' lim' N" and "next_of m' N = 0"
    and "lim \<le> N" and "lim \<le> lim'" and "lim' \<le> length m"
  shows "is_chain m' lim' (rs @ [N]) \<and> map (record_values m') rs = map (record_values m) rs"
  using assms
proof (induction m lim rs rule: is_chain.induct)
  case (1 m lim)
  then show ?case by simp
next
  case (2 m lim r)
  from "2.prems"(1) have wf: "wf_record m lim r" by simp
  note f = wf_record_facts [OF wf]
  have tp: "tp = r + total_of m r - 8" using "2.prems"(4) by simp
  have same: "m' ! i = m ! i" if "r \<le> i" "i < r + total_of m r - 8" for i
    by (rule "2.prems"(3)) (use that f(4) tp in simp_all)
  note fr = record_frame [OF wf "2.prems"(2) same "2.prems"(9,10)]
  have e1: "r + total_of m r - 8 = tp" by (simp add: tp)
  have e2: "r + total_of m r = tp + 8" using f(2) by (simp add: tp)
  have "next_of m' r = bigUint64 (slice m' (r + total_of m r - 8) (r + total_of m r))"
    by (simp add: next_of_def fr(1))
  also have "\<dots> = bigUint64 (slice m' tp (tp + 8))"
    unfolding e1 unfolding e2 ..
  finally have nx: "next_of m' r = int N" by (simp add: "2.prems"(5))
  have "r + total_of m' r \<le> N" using f(4) "2.prems"(8) by (simp add: fr(1))
  with fr(4,5) nx "2.prems"(6,7) show ?case by simp
next
  case (3 m lim r r' rs)
  from "3.prems"(1) have wf: "wf_record m lim r" and nx: "next_of m r = int r'"
    and le: "r + total_of m r \<le> r'" and ch: "is_chain m lim (r' # rs)"
    by simp_all
  note f = wf_record_facts [OF wf]
  from ch have wfl: "wf_record m lim (last (r' # rs))"
    by (induction rs arbitrary: r') (simp_all split: if_splits)
  have tp: "tp = last (r' # rs) + total_of m (last (r' # rs)) - 8" using "3.prems"(4) by simp
  have "r' \<le> last (r' # rs)" using ch by (rule chain_last_ge)
  with le wf_record_facts(2) [OF wfl] have below: "r + total_of m r \<le> tp" unfolding tp by simp
  have same: "m' ! i = m ! i" if "r \<le> i" "i < r + total_of m r" for i
    by (rule "3.prems"(3)) (use that f(4) below in simp_all)
  have same': "m' ! i = m ! i" if "r \<le> i" "i < r + total_of m r - 8" for i
    by (rule same) (use that in simp_all)
  note fr = record_frame [OF wf "3.prems"(2) same' "3.prems"(9,10)]
  have nx': "next_of m' r = int r'" using next_frame [OF wf "3.prems"(2) same] nx by simp
  have ih: "is_chain m' lim' ((r' # rs) @ [N]) \<and> map (record_values m') (r' # rs) = map (record_values m) (r' # rs)"
    by (rule "3.IH" [OF ch "3.prems"(2,3) tp "3.prems"(5,6,7,8,9,10)])
  with fr(1,4,5) nx' le show ?case by simp
qed




lemma add_appended:
  assumes "add g s p key values wr = Ok (res, s')" and "offset s' \<noteq> offset s"
    and "keyMap s key = Some (int off)"
  shows "res = None \<and> wr = WriteOk
    \<and> build_record g (offset s) key values = Ok (Inr (record_bytes (offset s) key values))
    \<and> (\<forall>v\<in>set values. length v \<le> 255)
    \<and> s' = (case p of None \<Rightarrow> file_write s (record_bytes (offset s) key values)
             | Some tp \<Rightarrow> (file_write s (record_bytes (offset s) key values))
                 \<lparr>bytesAddr := write_at (bytesAddr (file_write s (record_bytes (offset s) key values)))
                                 tp (putUint64 (offset s))\<rparr>)
           \<lparr>offset := offset s + int (length (record_bytes (offset s) key values))\<rparr>"
proof -
  from assms(1,2) obtain rb where br: "build_record g (offset s) key values = Ok (Inr rb)"
    by (auto simp: add_def split: result.splits sum.splits)
  note r = build_record_Inr [OF br]
  from assms(1,2) have wr: "wr = WriteOk"
    by (auto simp: add_def br split: write_outcome.splits)
  from assms(1) show ?thesis
    unfolding add_def br wr using r assms(3)
    by (auto simp: Let_def notExist_def split: option.splits)
qed


lemma chain_last_wf: "is_chain m lim rs \<Longrightarrow> wf_record m lim (last rs)"
  by (induction m lim rs rule: is_chain.induct) simp_all

lemma gets_chain:
  assumes "keyMap s key = Some (int off)" and "is_chain (bytesAddr s) lim (off # rs)"
  shows "gets s key = Some (Ok (concat (map (record_values (bytesAddr s)) (off # rs))))"
  using gets_loop_chain [OF assms(2), of "[]"] assms(1)
  by (simp add: gets_def notExist_def)

text \<open>
  The round trip on a new key of at most 246 bytes: \<open>Get\<close> returns the values of the
  \<open>Add\<close>, those of length 0 left out.
\<close>

lemma add_new_key:
  assumes "add g s None key values wr = Ok (None, s')"
    and "keyMap s key = None \<or> keyMap s key = Some notExist"
  shows "wr = WriteOk \<and> (\<forall>v\<in>set values. length v \<le> 255)
    \<and> s' = (file_write s (record_bytes (offset s) key values))
             \<lparr>keyMap := (keyMap s)(key \<mapsto> offset s),
              offset := offset s + int (length (record_bytes (offset s) key values))\<rparr>"
proof -
  from assms(1) obtain rb where br: "build_record g (offset s) key values = Ok (Inr rb)"
    by (auto simp: add_def split: result.splits sum.splits)
  note r = build_record_Inr [OF br]
  from assms(1) have wr: "wr = WriteOk"
    by (auto simp: add_def br split: write_outcome.splits)
  from assms(1) show ?thesis
    unfolding add_def br wr using r assms(2)
    by (auto simp: Let_def)
qed

lemma roundtrip_short_key:
  assumes fresh: "keyMap s key = None \<or> keyMap s key = Some notExist"
    and sync: "int (fpos s) = offset s"
    and add: "Add growcap s key values wr = Some (Ok (None, s'))"
    and ne: "values \<noteq> []"
    and room: "offset s' \<le> int (length (bytesAddr s))"
    and go: "int (length (bytesAddr s)) < 2 ^ 63"
    and klen: "length key \<le> 246"
  shows "Get s' key = Some (Ok (filter (\<lambda>v. v \<noteq> []) values))"
proof -
  define m where "m = bytesAddr s"
  define N where "N = fpos s"
  define rb where "rb = record_bytes (offset s) key values"
  define m' where "m' = write_at m N rb"
  from add fresh ne have a: "add growcap s None key values wr = Ok (None, s')"
    by (simp add: Add_def adds_new_key)
  note an = add_new_key [OF a fresh, folded rb_def]
  from an have v255: "\<forall>v\<in>set values. length v \<le> 255" by blast
  from an have s': "s' = (file_write s rb)\<lparr>keyMap := (keyMap s)(key \<mapsto> offset s),
              offset := offset s + int (length rb)\<rparr>"
    by blast
  have Npos: "int N = offset s" using sync by (simp add: N_def)
  have ms': "bytesAddr s' = m'" by (simp add: s' file_write_def m'_def m_def N_def)
  have ks': "keyMap s' key = Some (int N)" by (simp add: s' file_write_def Npos)
  have os': "offset s' = int (N + length rb)" by (simp add: s' file_write_def Npos)
  have room': "N + length rb \<le> length m" using room by (simp add: os' m_def)
  have "slice m' N (N + length rb) = rb"
    unfolding m'_def using room' by (rule slice_write_at_same)
  then have newrec: "slice m' N (N + length (record_bytes (offset s) key values))
                        = record_bytes (offset s) key values"
    by (simp add: rb_def)
  have small: "int (length (record_bytes (offset s) key values)) < 2 ^ 63"
    using room' go by (simp add: rb_def m_def)
  have lim1: "N + length (record_bytes (offset s) key values) \<le> N + length rb" by (simp add: rb_def)
  have lim2: "N + length rb \<le> length m'" using room' by (simp add: m'_def)
  note nr = new_record [OF newrec lim1 lim2 klen v255 small]
  have ch: "is_chain (bytesAddr s') (N + length rb) (N # [])"
    using nr(1,2) by (simp add: ms')
  from gets_chain [OF ks' ch] nr(3) show ?thesis
    by (simp add: Get_def ms')
qed

text \<open>
  An \<open>add\<close> that appends behind a well-formed chain: the new record lies at the old
  end offset, the tail of the chain links to it, and the records before it keep their
  values.
\<close>

lemma append_extends:
  assumes km: "keyMap s key = Some (int off)"
    and ch: "is_chain (bytesAddr s) (nat (offset s)) (off # rs)"
    and sync: "int (fpos s) = offset s"
    and a: "add growcap s
              (Some (last (off # rs) + total_of (bytesAddr s) (last (off # rs)) - 8))
              key values wr = Ok (res, s')"
    and app: "offset s' \<noteq> offset s"
    and room: "offset s' \<le> int (length (bytesAddr s))"
    and go: "int (length (bytesAddr s)) < 2 ^ 63"
    and klen: "length key \<le> 246"
  shows "res = None"
    and "offset s' = offset s + int (length (record_bytes (offset s) key values))"
    and "keyMap s' = keyMap s"
    and "slice (bytesAddr s') (nat (offset s)) (nat (offset s'))
           = record_bytes (offset s) key values"
    and "is_chain (bytesAddr s') (nat (offset s')) ((off # rs) @ [nat (offset s)])"
    and "map (record_values (bytesAddr s')) (off # rs)
           = map (record_values (bytesAddr s)) (off # rs)"
    and "record_values (bytesAddr s') (nat (offset s)) = filter (\<lambda>v. v \<noteq> []) values"
proof -
  define m where "m = bytesAddr s"
  define N where "N = nat (offset s)"
  define rb where "rb = record_bytes (offset s) key values"
  define tp where "tp = last (off # rs) + total_of m (last (off # rs)) - 8"
  define m1 where "m1 = write_at m N rb"
  define m' where "m' = write_at m1 tp (putUint64 (offset s))"
  note ch' = ch [folded m_def N_def]
  have wfl: "wf_record m N (last (off # rs))" using ch' by (rule chain_last_wf)
  note fl = wf_record_facts [OF wfl]
  have Npos: "int N = offset s" using fl(2,4) by (simp add: N_def)
  have fN: "fpos s = N" using sync Npos by simp
  have tp8: "tp + 8 \<le> N" using fl(2,4) by (simp add: tp_def)
  have a': "add growcap s (Some tp) key values wr = Ok (res, s')"
    using a unfolding tp_def m_def .
  note ap = add_appended [OF a' app km, folded rb_def]
  from ap show "res = None" by blast
  from ap have v255: "\<forall>v\<in>set values. length v \<le> 255" by blast
  from ap have s': "s' = (file_write s rb)
      \<lparr>bytesAddr := write_at (bytesAddr (file_write s rb)) tp (putUint64 (offset s))\<rparr>
      \<lparr>offset := offset s + int (length rb)\<rparr>"
    by simp
  have ms': "bytesAddr s' = m'" by (simp add: s' file_write_def m'_def m1_def m_def fN)
  show ks': "keyMap s' = keyMap s" by (simp add: s' file_write_def)
  have os': "offset s' = int (N + length rb)" by (simp add: s' file_write_def Npos)
  then show "offset s' = offset s + int (length (record_bytes (offset s) key values))"
    by (simp add: Npos rb_def)
  have nos': "nat (offset s') = N + length rb" by (simp add: os')
  have room': "N + length rb \<le> length m" using room by (simp add: os' m_def)
  have lm1: "length m1 = length m" by (simp add: m1_def)
  have lm': "length m' = length m" by (simp add: m'_def lm1)
  have old: "m' ! i = m ! i" if "i < N" "i < tp \<or> tp + 8 \<le> i" for i
  proof -
    have il: "i < length m" using that(1) room' by simp
    have "m' ! i = m1 ! i"
      unfolding m'_def using that(2) il by (auto simp: nth_write_at lm1)
    also have "\<dots> = m ! i"
      unfolding m1_def using that(1) il by (simp add: nth_write_at)
    finally show ?thesis .
  qed
  have "slice m' tp (tp + 8) = putUint64 (offset s)"
    unfolding m'_def using slice_write_at_same [of tp "putUint64 (offset s)" m1] tp8 room'
    by (simp add: lm1)
  moreover have "bigUint64 (putUint64 (offset s)) = offset s"
    by (rule bigUint64_putUint64) (use Npos go room' in \<open>simp_all add: m_def\<close>)
  ultimately have link: "bigUint64 (slice m' tp (tp + 8)) = int N" by (simp add: Npos)
  have "slice m' N (N + length rb) = slice m1 N (N + length rb)"
    by (rule slice_cong) (use tp8 room' in \<open>simp_all add: lm' lm1 m'_def nth_write_at\<close>)
  also have "\<dots> = rb"
    unfolding m1_def using room' by (rule slice_write_at_same)
  finally have newrec: "slice m' N (N + length (record_bytes (offset s) key values))
                        = record_bytes (offset s) key values"
    by (simp add: rb_def)
  then show "slice (bytesAddr s') (nat (offset s)) (nat (offset s'))
           = record_bytes (offset s) key values"
    by (simp add: ms' nos' N_def rb_def)
  have small: "int (length (record_bytes (offset s) key values)) < 2 ^ 63"
    using room' go by (simp add: rb_def m_def)
  have lim1: "N + length (record_bytes (offset s) key values) \<le> N + length rb" by (simp add: rb_def)
  have lim2: "N + length rb \<le> length m'" using room' by (simp add: lm')
  note nr = new_record [OF newrec lim1 lim2 klen v255 small]
  have ext: "is_chain m' (N + length rb) ((off # rs) @ [N])
             \<and> map (record_values m') (off # rs) = map (record_values m) (off # rs)"
    by (rule is_chain_extend [OF ch' lm' old tp_def link nr(1,2)]) (use room' in simp_all)
  from ext show "is_chain (bytesAddr s') (nat (offset s')) ((off # rs) @ [nat (offset s)])"
    by (simp add: ms' nos' N_def)
  from ext show "map (record_values (bytesAddr s')) (off # rs)
           = map (record_values (bytesAddr s)) (off # rs)"
    by (simp add: ms' m_def)
  from nr(3) show "record_values (bytesAddr s') (nat (offset s)) = filter (\<lambda>v. v \<noteq> []) values"
    by (simp add: ms' N_def)
qed

lemma add_offset:
  assumes "add g s p key values WriteOk = Ok (None, s')"
    and "build_record g (offset s) key values = Ok (Inr rb)"
  shows "offset s' = offset s + int (length rb)"
  using assms by (auto simp: add_def Let_def file_write_def split: option.splits if_splits)

section \<open>The claims\<close>

text \<open>
  Claim C1 (round trip of \<open>Add\<close> and \<open>Get\<close> on a new key), evaluated at a key of
  255 bytes and the single value \<open>a\<close>. \<open>Add\<close> returns without an error, and \<open>Get\<close>
  returns the key itself in front of the value: the scan of \<open>get\<close> starts at
  \<open>int(b[8] + 1 + 8)\<close>, which is 8 for a key length of 255 because the sum wraps in
  \<open>byte\<close> arithmetic, so the length byte of the key is read as the length byte of a
  value slot. For a key of at most 246 bytes the round trip holds, as
  \<open>roundtrip_short_key\<close> shows.
\<close>

theorem roundtrip_long_key:
  "(let r = Add exact_cap (NewMsearch 320) key255 [bytes_of ''a''] WriteOk in
      returned r \<and> fst (the_ok r) = None
      \<and> Get (snd (the_ok r)) key255 = Some (Ok [key255, bytes_of ''a'']))"
  by code_simp

text \<open>
  Claim C2 (\<open>Del\<close> never fails and treats the sentinel like an absent key),
  evaluated on the state that \<open>Exist\<close> leaves on a new engine. \<open>Exist\<close> returns
  false and stores the sentinel. \<open>Get\<close> treats the key as absent, and \<open>Del\<close> with no
  values changes nothing; \<open>Del\<close> with one value panics, because \<open>dels\<close> passes the
  sentinel \<open>-1\<close> on as an offset and \<open>del\<close> slices the mapping from it.
\<close>

theorem del_on_sentinel_panics:
  "Exist (NewMsearch 64) key_u = (False, st_sentinel)
   \<and> keyMap st_sentinel key_u = Some notExist
   \<and> Get st_sentinel key_u = Some (Ok [])
   \<and> Del st_sentinel key_u [] = Some (Ok st_sentinel)
   \<and> Del st_sentinel key_u [bytes_of ''v''] = Some Panic"
  by (simp add: st_sentinel_def Exist_def NewMsearch_def Get_def gets_def Del_def dels_def
        dels_loop.simps del_def read_total_def in_bounds_def notExist_def)

text \<open>
  Claim C3, amended. Let the chain of the key be well-formed: its records lie below
  the end offset, their slots are aligned, and their keys have at most 246 bytes, so
  that \<open>int(b[8] + 1 + 8)\<close> is the start of the value area. For a single-value
  \<open>Add\<close> the gap that is tried is then the first gap of the chain: the gap nearest
  the header in the first record, from head to tail, that has a gap at all, whatever
  its length. If the value is shorter than that gap, nothing is appended, and when the
  gap lies in the head record the value is written at its start. Otherwise \<open>Add\<close> is
  the append behind the tail of the chain, also when a later gap would hold the value:
  when the value has at most 255 bytes, the key at most 246, the file position is the
  end offset, the write succeeds and the mapping holds the new record, \<open>Add\<close> returns
  without an error, the new record lies at the old end offset, the chain is the old
  chain followed by the new record, the old records keep their values, and \<open>Get\<close>
  returns the old values followed by the new one.
\<close>

theorem first_gap_is_tried:
  assumes "keyMap s key = Some (int off)"
    and "is_chain (bytesAddr s) (nat (offset s)) (off # rs)"
  shows "empty (bytesAddr s) (int off) = Some (Ok (empty_spec (bytesAddr s) (off # rs)))
    \<and> (first_gap (bytesAddr s) (off # rs) = Some (r, st, e) \<and> length v < e - st \<longrightarrow>
         (\<forall>res s'. Add growcap s key [v] wr = Some (Ok (res, s')) \<longrightarrow>
            res = None \<and> offset s' = offset s \<and> fpos s' = fpos s)
         \<and> (r = off \<longrightarrow>
              Add growcap s key [v] wr
                = Some (Ok (None, s\<lparr>bytesAddr :=
                    write_at ((bytesAddr s)[off + st := of_nat (length v)]) (off + st + 1) v\<rparr>))))
    \<and> (first_gap (bytesAddr s) (off # rs) = None
         \<or> first_gap (bytesAddr s) (off # rs) = Some (r', st', e') \<and> \<not> length v' < e' - st' \<longrightarrow>
         Add growcap s key [v'] wr
           = Some (add growcap s
               (Some (last (off # rs) + total_of (bytesAddr s) (last (off # rs)) - 8))
               key [v'] wr))
    \<and> ((first_gap (bytesAddr s) (off # rs) = None
          \<or> first_gap (bytesAddr s) (off # rs) = Some (r'', st'', e'')
              \<and> \<not> length v'' < e'' - st'')
         \<and> length v'' \<le> 255 \<and> length key \<le> 246 \<and> int (fpos s) = offset s
         \<and> offset s + int (26 + length key + length v'') \<le> int (length (bytesAddr s))
         \<and> int (length (bytesAddr s)) < 2 ^ 63 \<longrightarrow>
         (\<exists>s'. Add growcap s key [v''] WriteOk = Some (Ok (None, s'))
            \<and> offset s' = offset s + int (26 + length key + length v'')
            \<and> keyMap s' = keyMap s
            \<and> slice (bytesAddr s') (nat (offset s)) (nat (offset s'))
                = record_bytes (offset s) key [v'']
            \<and> is_chain (bytesAddr s') (nat (offset s')) ((off # rs) @ [nat (offset s)])
            \<and> map (record_values (bytesAddr s')) (off # rs)
                = map (record_values (bytesAddr s)) (off # rs)
            \<and> Get s' key = Some (Ok (concat (map (record_values (bytesAddr s)) (off # rs))
                                      @ filter (\<lambda>v. v \<noteq> []) [v'']))))"
proof (intro conjI impI)
  show "empty (bytesAddr s) (int off) = Some (Ok (empty_spec (bytesAddr s) (off # rs)))"
    using empty_chain [OF assms(2)] by simp
next
  assume fit: "first_gap (bytesAddr s) (off # rs) = Some (r, st, e) \<and> length v < e - st"
  note fg = fill_gap_fit [OF assms(2) fit [THEN conjunct1] fit [THEN conjunct2]]
  show "\<forall>res s'. Add growcap s key [v] wr = Some (Ok (res, s')) \<longrightarrow>
            res = None \<and> offset s' = offset s \<and> fpos s' = fpos s"
    unfolding Add_def adds_single [OF assms(1)] fg by (auto split: if_splits)
next
  assume fit: "first_gap (bytesAddr s) (off # rs) = Some (r, st, e) \<and> length v < e - st"
    and r: "r = off"
  note fg = fill_gap_fit [OF assms(2) fit [THEN conjunct1] fit [THEN conjunct2]]
  note b = first_gap_bounds [OF assms(2) fit [THEN conjunct1]]
  note f = wf_record_facts [OF b [THEN conjunct1]]
  from b fit f(2) have le: "length v \<le> total_of (bytesAddr s) off - st - 1" and lt: "st < total_of (bytesAddr s) off"
    unfolding r by linarith+
  show "Add growcap s key [v] wr
          = Some (Ok (None, s\<lparr>bytesAddr :=
              write_at ((bytesAddr s)[off + st := of_nat (length v)]) (off + st + 1) v\<rparr>))"
    unfolding Add_def adds_single [OF assms(1)] fg
    using f(3) le lt by (simp add: r)
next
  assume nofit: "first_gap (bytesAddr s) (off # rs) = None
         \<or> first_gap (bytesAddr s) (off # rs) = Some (r', st', e') \<and> \<not> length v' < e' - st'"
  then have fg: "fill_gap s (int off) v' = Some (Ok None)"
    using fill_gap_no_gap [OF assms(2)] fill_gap_no_fit [OF assms(2)] by blast
  from assms(2) have wf: "wf_record (bytesAddr s) (nat (offset s)) off" by (cases rs) simp_all
  from wf_record_facts(2,4) [OF wf] have "int (nat (offset s)) \<le> offset s" by simp
  note g = getB8_chain [OF assms(2) this]
  show "Add growcap s key [v'] wr
           = Some (add growcap s
               (Some (last (off # rs) + total_of (bytesAddr s) (last (off # rs)) - 8))
               key [v'] wr)"
    unfolding Add_def adds_single [OF assms(1)] fg using g by simp
next
  assume h: "(first_gap (bytesAddr s) (off # rs) = None
          \<or> first_gap (bytesAddr s) (off # rs) = Some (r'', st'', e'')
              \<and> \<not> length v'' < e'' - st'')
         \<and> length v'' \<le> 255 \<and> length key \<le> 246 \<and> int (fpos s) = offset s
         \<and> offset s + int (26 + length key + length v'') \<le> int (length (bytesAddr s))
         \<and> int (length (bytesAddr s)) < 2 ^ 63"
  define tp where "tp = last (off # rs) + total_of (bytesAddr s) (last (off # rs)) - 8"
  define rb where "rb = record_bytes (offset s) key [v'']"
  from h have klen: "length key \<le> 246" and v255: "\<forall>v\<in>set [v'']. length v \<le> 255"
    and sync: "int (fpos s) = offset s" and go: "int (length (bytesAddr s)) < 2 ^ 63"
    by simp_all
  have lrb: "length rb = 26 + length key + length v''"
    using klen by (simp add: rb_def length_record_bytes)
  from h have room: "offset s + int (length rb) \<le> int (length (bytesAddr s))"
    unfolding lrb by blast
  from h have fg: "fill_gap s (int off) v'' = Some (Ok None)"
    using fill_gap_no_gap [OF assms(2)] fill_gap_no_fit [OF assms(2)] by blast
  from assms(2) have wf: "wf_record (bytesAddr s) (nat (offset s)) off" by (cases rs) simp_all
  from wf_record_facts(2,4) [OF wf] have "int (nat (offset s)) \<le> offset s" by simp
  note g = getB8_chain [OF assms(2) this]
  have A: "Add growcap s key [v''] WriteOk = Some (add growcap s (Some tp) key [v''] WriteOk)"
    unfolding Add_def adds_single [OF assms(1)] fg tp_def using g by simp
  have small: "length key + length (enc [v'']) + 25 \<le> 1024"
    using klen v255 by simp
  note br = build_record_small [OF v255 small, of growcap "offset s", folded rb_def]
  from add_accepts [OF v255 small] obtain s'
    where a: "add growcap s (Some tp) key [v''] WriteOk = Ok (None, s')"
    by blast
  have os: "offset s' = offset s + int (length rb)"
    using a br by (rule add_offset)
  then have app: "offset s' \<noteq> offset s" by (simp add: lrb)
  have room': "offset s' \<le> int (length (bytesAddr s))" using room os by simp
  note e = append_extends [OF assms(1,2) sync a [unfolded tp_def] app room' go klen]
  have km': "keyMap s' key = Some (int off)" using e(3) assms(1) by simp
  have ch2: "is_chain (bytesAddr s') (nat (offset s')) (off # (rs @ [nat (offset s)]))"
    using e(5) by simp
  have "gets s' key
        = Some (Ok (concat (map (record_values (bytesAddr s')) (off # (rs @ [nat (offset s)])))))"
    by (rule gets_chain [OF km' ch2])
  also have "map (record_values (bytesAddr s')) (off # (rs @ [nat (offset s)]))
             = map (record_values (bytesAddr s)) (off # rs) @ [filter (\<lambda>v. v \<noteq> []) [v'']]"
    using e(6,7) by simp
  finally have G: "Get s' key = Some (Ok (concat (map (record_values (bytesAddr s)) (off # rs))
                                      @ filter (\<lambda>v. v \<noteq> []) [v'']))"
    by (simp add: Get_def)
  have O: "offset s' = offset s + int (26 + length key + length v'')"
    using os by (simp add: lrb)
  from A a O e(3) e(4) e(5) e(6) G
  show "\<exists>s'. Add growcap s key [v''] WriteOk = Some (Ok (None, s'))
            \<and> offset s' = offset s + int (26 + length key + length v'')
            \<and> keyMap s' = keyMap s
            \<and> slice (bytesAddr s') (nat (offset s)) (nat (offset s'))
                = record_bytes (offset s) key [v'']
            \<and> is_chain (bytesAddr s') (nat (offset s')) ((off # rs) @ [nat (offset s)])
            \<and> map (record_values (bytesAddr s')) (off # rs)
                = map (record_values (bytesAddr s)) (off # rs)
            \<and> Get s' key = Some (Ok (concat (map (record_values (bytesAddr s)) (off # rs))
                                      @ filter (\<lambda>v. v \<noteq> []) [v'']))"
    by (intro exI [of _ s'] conjI) simp_all
qed


theorem first_gap_is_tried_witness:
  "keyMap st_gaps key_u = Some (int 0)
   \<and> is_chain (bytesAddr st_gaps) (nat (offset st_gaps)) (0 # [])
   \<and> first_gap (bytesAddr st_gaps) (0 # []) = Some (0, 10, 12)
   \<and> length (bytes_of ''d'') < 12 - 10
   \<and> \<not> length (bytes_of ''cc'') < 12 - 10
   \<and> length (bytes_of ''cc'') \<le> 255 \<and> length key_u \<le> 246
   \<and> int (fpos st_gaps) = offset st_gaps
   \<and> offset st_gaps + int (26 + length key_u + length (bytes_of ''cc''))
       \<le> int (length (bytesAddr st_gaps))
   \<and> int (length (bytesAddr st_gaps)) < 2 ^ 63
   \<and> empty (bytesAddr st_gaps) (int 0) = Some (Ok (empty_spec (bytesAddr st_gaps) (0 # [])))
   \<and> Add exact_cap st_gaps key_u [bytes_of ''d''] WriteOk
       = Some (Ok (None, st_gaps\<lparr>bytesAddr :=
           write_at ((bytesAddr st_gaps)[0 + 10 := of_nat (length (bytes_of ''d''))]) (0 + 10 + 1)
             (bytes_of ''d'')\<rparr>))
   \<and> Add exact_cap st_gaps key_u [bytes_of ''cc''] WriteOk
       = Some (add exact_cap st_gaps
           (Some (last (0 # []) + total_of (bytesAddr st_gaps) (last (0 # [])) - 8))
           key_u [bytes_of ''cc''] WriteOk)
   \<and> (\<exists>s'. Add exact_cap st_gaps key_u [bytes_of ''cc''] WriteOk = Some (Ok (None, s'))
        \<and> offset s' = offset st_gaps + int (26 + length key_u + length (bytes_of ''cc''))
        \<and> keyMap s' = keyMap st_gaps
        \<and> slice (bytesAddr s') (nat (offset st_gaps)) (nat (offset s'))
            = record_bytes (offset st_gaps) key_u [bytes_of ''cc'']
        \<and> is_chain (bytesAddr s') (nat (offset s')) ((0 # []) @ [nat (offset st_gaps)])
        \<and> map (record_values (bytesAddr s')) (0 # [])
            = map (record_values (bytesAddr st_gaps)) (0 # [])
        \<and> Get s' key_u
            = Some (Ok (concat (map (record_values (bytesAddr st_gaps)) (0 # []))
                        @ filter (\<lambda>v. v \<noteq> []) [bytes_of ''cc''])))"
proof -
  have h1: "keyMap st_gaps key_u = Some (int 0)" by code_simp
  have h2: "is_chain (bytesAddr st_gaps) (nat (offset st_gaps)) (0 # [])" by code_simp
  have h3: "first_gap (bytesAddr st_gaps) (0 # []) = Some (0, 10, 12)" by code_simp
  have h4: "length (bytes_of ''d'') < 12 - 10" by (simp add: bytes_of_def)
  have h5: "\<not> length (bytes_of ''cc'') < 12 - 10" by (simp add: bytes_of_def)
  have h6: "length (bytes_of ''cc'') \<le> 255" by (simp add: bytes_of_def)
  have h6': "length key_u \<le> 246" by (simp add: bytes_of_def key_u_def)
  have h7: "int (fpos st_gaps) = offset st_gaps" by code_simp
  have h8: "offset st_gaps + int (26 + length key_u + length (bytes_of ''cc''))
              \<le> int (length (bytesAddr st_gaps))"
    by code_simp
  have h9: "int (length (bytesAddr st_gaps)) < 2 ^ 63" by code_simp
  note t = first_gap_is_tried [OF h1 h2, of 0 10 12 "bytes_of ''d''" exact_cap WriteOk
              0 10 12 "bytes_of ''cc''" 0 10 12 "bytes_of ''cc''"]
  from t have c1: "empty (bytesAddr st_gaps) (int 0) = Some (Ok (empty_spec (bytesAddr st_gaps) (0 # [])))"
    by blast
  from t h3 h4 have c2: "Add exact_cap st_gaps key_u [bytes_of ''d''] WriteOk
       = Some (Ok (None, st_gaps\<lparr>bytesAddr :=
           write_at ((bytesAddr st_gaps)[0 + 10 := of_nat (length (bytes_of ''d''))]) (0 + 10 + 1)
             (bytes_of ''d'')\<rparr>))"
    by blast
  from t h3 h5 have c3: "Add exact_cap st_gaps key_u [bytes_of ''cc''] WriteOk
       = Some (add exact_cap st_gaps
           (Some (last (0 # []) + total_of (bytesAddr st_gaps) (last (0 # [])) - 8))
           key_u [bytes_of ''cc''] WriteOk)"
    by blast
  from t have "(first_gap (bytesAddr st_gaps) (0 # []) = None
          \<or> first_gap (bytesAddr st_gaps) (0 # []) = Some (0, 10, 12)
              \<and> \<not> length (bytes_of ''cc'') < 12 - 10)
         \<and> length (bytes_of ''cc'') \<le> 255 \<and> length key_u \<le> 246
         \<and> int (fpos st_gaps) = offset st_gaps
         \<and> offset st_gaps + int (26 + length key_u + length (bytes_of ''cc''))
             \<le> int (length (bytesAddr st_gaps))
         \<and> int (length (bytesAddr st_gaps)) < 2 ^ 63 \<longrightarrow>
     (\<exists>s'. Add exact_cap st_gaps key_u [bytes_of ''cc''] WriteOk = Some (Ok (None, s'))
        \<and> offset s' = offset st_gaps + int (26 + length key_u + length (bytes_of ''cc''))
        \<and> keyMap s' = keyMap st_gaps
        \<and> slice (bytesAddr s') (nat (offset st_gaps)) (nat (offset s'))
            = record_bytes (offset st_gaps) key_u [bytes_of ''cc'']
        \<and> is_chain (bytesAddr s') (nat (offset s')) ((0 # []) @ [nat (offset st_gaps)])
        \<and> map (record_values (bytesAddr s')) (0 # [])
            = map (record_values (bytesAddr st_gaps)) (0 # [])
        \<and> Get s' key_u
            = Some (Ok (concat (map (record_values (bytesAddr st_gaps)) (0 # []))
                        @ filter (\<lambda>v. v \<noteq> []) [bytes_of ''cc''])))"
    by (elim conjE)
  with h3 h5 h6 h6' h7 h8 h9
  have c4: "\<exists>s'. Add exact_cap st_gaps key_u [bytes_of ''cc''] WriteOk = Some (Ok (None, s'))
        \<and> offset s' = offset st_gaps + int (26 + length key_u + length (bytes_of ''cc''))
        \<and> keyMap s' = keyMap st_gaps
        \<and> slice (bytesAddr s') (nat (offset st_gaps)) (nat (offset s'))
            = record_bytes (offset st_gaps) key_u [bytes_of ''cc'']
        \<and> is_chain (bytesAddr s') (nat (offset s')) ((0 # []) @ [nat (offset st_gaps)])
        \<and> map (record_values (bytesAddr s')) (0 # [])
            = map (record_values (bytesAddr st_gaps)) (0 # [])
        \<and> Get s' key_u
            = Some (Ok (concat (map (record_values (bytesAddr st_gaps)) (0 # []))
                        @ filter (\<lambda>v. v \<noteq> []) [bytes_of ''cc'']))"
    by (elim impE) (intro conjI disjI2, assumption+)
  from h1 h2 h3 h4 h5 h6 h6' h7 h8 h9 c1 c2 c3 c4 show ?thesis
    by (intro conjI)
qed

text \<open>
  Claim C3 as stated fails: the record of the chain has the gaps \<open>[10, 12)\<close> and
  \<open>[14, 18)\<close>, and the value \<open>cc\<close> has two bytes. The second gap is a usable gap for
  it, the first usable gap of the chain, but \<open>Add\<close> appends a new record: the end
  offset moves from 34 to 63, the gap stays as it was, and \<open>Get\<close> returns \<open>cc\<close> from
  the tail of the chain.
\<close>

theorem usable_gap_not_used:
  "keyMap st_gaps key_u = Some 0
   \<and> is_chain (bytesAddr st_gaps) (nat (offset st_gaps)) [0]
   \<and> record_gaps (bytesAddr st_gaps) 0 = [(10, 12), (14, 18)]
   \<and> first_usable_gap (bytesAddr st_gaps) (length (bytes_of ''cc'')) [0] = Some (0, 14, 18)
   \<and> offset st_gaps = 34
   \<and> returned (Add exact_cap st_gaps key_u [bytes_of ''cc''] WriteOk)
   \<and> offset (snd (the_ok (Add exact_cap st_gaps key_u [bytes_of ''cc''] WriteOk))) = 63
   \<and> slice (bytesAddr (snd (the_ok (Add exact_cap st_gaps key_u [bytes_of ''cc''] WriteOk)))) 14 18
       = [0, 0, 0, 0]
   \<and> Get (snd (the_ok (Add exact_cap st_gaps key_u [bytes_of ''cc''] WriteOk))) key_u
       = Some (Ok [bytes_of ''x'', bytes_of ''cc''])"
  by code_simp

text \<open>
  Claim C4 (a value of length \<open>end - start - 1\<close> is written into the chosen gap),
  evaluated on a chain of two records. The head record is 28 bytes long and has no
  gap; the second record, at offset 28, has the gap \<open>[28, 31)\<close>. \<open>Add\<close> of the
  two-byte value \<open>xx\<close> passes the fit test \<open>2 < 31 - 28\<close> and then panics: \<open>adds\<close>
  cuts the slice \<open>b\<close> at the record of the gap but with the total of the head record,
  so \<open>b[28]\<close> is out of range.
\<close>

theorem gap_in_longer_record_panics:
  "(let s = st_gap2 in
      Get s key_u = Some (Ok [bytes_of ''a'', replicate 17 99])
      \<and> empty (bytesAddr s) 0 = Some (Ok (28, 28, 31, True))
      \<and> read_total (bytesAddr s) 0 = Ok 28
      \<and> panicked (Add exact_cap s key_u [bytes_of ''xx''] WriteOk))"
  by code_simp

text \<open>
  Claim C5 (\<open>Add\<close> fails whenever a value is longer than 255 bytes), evaluated for a
  value of 256 bytes. On a new key \<open>Add\<close> reports the value-too-large error. On a key
  whose record has a gap of 258 bytes the same \<open>Add\<close> returns without an error:
  \<open>adds\<close> puts a single value into the gap without the length test that \<open>add\<close>
  makes. Nothing is appended, the length byte that is stored is \<open>byte(256) = 0\<close>, and
  \<open>Get\<close> returns the last 255 bytes of the value as a value of its own.
\<close>

theorem oversize_value_in_gap:
  "length (replicate 256 (255::byte)) = 256
   \<and> fst (the_ok (Add exact_cap (NewMsearch 300) key_u [replicate 256 255] WriteOk))
       = Some ValueTooLarge
   \<and> keyMap st_wide key_u = Some 0
   \<and> offset st_wide = 284
   \<and> empty (bytesAddr st_wide) 0 = Some (Ok (0, 10, 268, True))
   \<and> returned (Add exact_cap st_wide key_u [replicate 256 255] WriteOk)
   \<and> fst (the_ok (Add exact_cap st_wide key_u [replicate 256 255] WriteOk)) = None
   \<and> offset (snd (the_ok (Add exact_cap st_wide key_u [replicate 256 255] WriteOk))) = 284
   \<and> bytesAddr (snd (the_ok (Add exact_cap st_wide key_u [replicate 256 255] WriteOk))) ! 10 = 0
   \<and> Get (snd (the_ok (Add exact_cap st_wide key_u [replicate 256 255] WriteOk))) key_u
       = Some (Ok [replicate 255 255])"
  by code_simp

text \<open>
  Claim C6, amended. When \<open>Add\<close> reports the value-too-large error, nothing has been
  appended: the state is the state before the call, so every \<open>Get\<close> returns what it
  returned before, and the values that precede the offending one are not stored. On a
  key that is absent or holds the sentinel, a value longer than 255 bytes gives this
  error.
\<close>

theorem too_large_leaves_state:
  "(Add growcap s key values wr = Some (Ok (Some ValueTooLarge, s')) \<longrightarrow>
      s' = s \<and> Get s' k = Get s k)
   \<and> ((keyMap s key = None \<or> keyMap s key = Some notExist)
        \<and> (\<exists>v\<in>set values. 255 < length v) \<longrightarrow>
      Add growcap s key values wr = Some (Ok (Some ValueTooLarge, s)))"
proof (intro conjI impI)
  assume "Add growcap s key values wr = Some (Ok (Some ValueTooLarge, s'))"
  then have "s' = s" by (simp add: Add_def adds_too_large_unchanged)
  then show "s' = s" and "Get s' k = Get s k" by simp_all
next
  assume a: "(keyMap s key = None \<or> keyMap s key = Some notExist)
             \<and> (\<exists>v\<in>set values. 255 < length v)"
  then have "values \<noteq> []" by auto
  with a show "Add growcap s key values wr = Some (Ok (Some ValueTooLarge, s))"
    by (simp add: Add_def adds_new_key add_too_large)
qed

theorem too_large_leaves_state_witness:
  "(keyMap st_two key_w = None \<or> keyMap st_two key_w = Some notExist)
   \<and> (\<exists>v\<in>set [bytes_of ''a'', replicate 256 120]. 255 < length v)
   \<and> Add exact_cap st_two key_w [bytes_of ''a'', replicate 256 120] WriteOk
       = Some (Ok (Some ValueTooLarge, st_two))
   \<and> Get st_two key_w = Some (Ok [])"
proof -
  have h1: "keyMap st_two key_w = None \<or> keyMap st_two key_w = Some notExist" by code_simp
  have h2: "\<exists>v\<in>set [bytes_of ''a'', replicate 256 120]. 255 < length v" by simp
  have g: "Get st_two key_w = Some (Ok [])" by code_simp
  note t = too_large_leaves_state [of exact_cap st_two key_w "[bytes_of ''a'', replicate 256 120]" WriteOk st_two key_w]
  from t h1 h2 have c: "Add exact_cap st_two key_w [bytes_of ''a'', replicate 256 120] WriteOk
       = Some (Ok (Some ValueTooLarge, st_two))" by blast
  from t c have "Get st_two key_w = Get st_two key_w" by blast
  with h1 h2 c g show ?thesis by blast
qed

text \<open>
  Claim C6 as stated fails: the value \<open>a\<close> stands before a value of 256 bytes in
  one \<open>Add\<close> on a new key. The call reports the error, the mapping holds no byte of
  a record, the file position has not moved, and \<open>Get\<close> returns nothing.
\<close>

theorem too_large_appends_nothing:
  "returned (Add exact_cap (NewMsearch 64) key_u [bytes_of ''a'', replicate 256 120] WriteOk)
   \<and> fst (the_ok (Add exact_cap (NewMsearch 64) key_u [bytes_of ''a'', replicate 256 120] WriteOk))
     = Some ValueTooLarge
   \<and> bytesAddr (snd (the_ok (Add exact_cap (NewMsearch 64) key_u [bytes_of ''a'', replicate 256 120] WriteOk)))
     = replicate 64 0
   \<and> fpos (snd (the_ok (Add exact_cap (NewMsearch 64) key_u [bytes_of ''a'', replicate 256 120] WriteOk))) = 0
   \<and> Get (snd (the_ok (Add exact_cap (NewMsearch 64) key_u [bytes_of ''a'', replicate 256 120] WriteOk))) key_u
     = Some (Ok [])"
  by code_simp




text \<open>
  Claim C8 (after a failed append write the failed bytes are never referenced),
  evaluated for a write that fails after twelve bytes, followed by an \<open>Add\<close> on
  another key whose write succeeds. The failed \<open>Add\<close> returns the error and leaves
  \<open>offset\<close> and the index as they were, but the file position has moved by twelve.
  The next record is written at file position 12 while the index publishes
  \<open>offset\<close>, which is 0: the head of the new chain is the place of the failed bytes.
  \<open>get\<close> reads the value \<open>a\<close> of the failed record there, and \<open>Get\<close> panics on the
  link it decodes.
\<close>

theorem failed_bytes_referenced:
  "(let r = Add exact_cap (NewMsearch 64) key_u [bytes_of ''a''] (WriteFails 12);
        s = st_failed; s' = st_after_failed
    in returned r \<and> fst (the_ok r) = Some IoError
      \<and> offset s = 0 \<and> fpos s = 12 \<and> keyMap s key_u = None
      \<and> take 12 (bytesAddr s) = [0, 0, 0, 0, 0, 0, 0, 28, 1, 117, 1, 97]
      \<and> returned (Add exact_cap s key_w [bytes_of ''b''] WriteOk)
      \<and> fst (the_ok (Add exact_cap s key_w [bytes_of ''b''] WriteOk)) = None
      \<and> keyMap s' key_w = Some 0 \<and> offset s' = 28 \<and> fpos s' = 40
      \<and> take 12 (bytesAddr s') = [0, 0, 0, 0, 0, 0, 0, 28, 1, 117, 1, 97]
      \<and> map_result fst (get (bytesAddr s') 0) = Ok [bytes_of ''a'']
      \<and> panicked (Get s' key_w))"
  by code_simp

text \<open>
  Claim C9 (every \<open>next\<close> field is 0 or greater than the offset of its record),
  evaluated after two \<open>Add\<close>s and one \<open>Del\<close>. The key of the second record has 254
  bytes, so the scans of that record start at \<open>int(b[8] + 1 + 8) = 7\<close>, inside
  the total. \<open>Del\<close> finds there a slot of 25 bytes, the low byte of the total being
  its length, and clears it: the total of the record at offset 28 drops from 281 to
  256, and the eight bytes that are now its \<open>next\<close> field are bytes of the key. It
  reads 5, which is neither 0 nor greater than 28, and \<open>Get\<close> panics when it follows
  the link.
\<close>

theorem backward_link:
  "(let s = st_link in
      keyMap s key254 = Some 28 \<and> offset s = 309
      \<and> read_total (bytesAddr s) 28 = Ok 256
      \<and> next_of (bytesAddr s) 28 = 5
      \<and> map_result snd (get (bytesAddr s) 28) = Ok 5
      \<and> panicked (Get s key254))"
  by code_simp

text \<open>
  Claim C10. Once the index maps a key to a real head offset (not the sentinel), no
  run of operations changes that entry: \<open>add\<close> stores a head offset only for a key
  that is absent or mapped to the sentinel, and the delete operations leave the
  index as it is.
\<close>

theorem index_entry_stable:
  assumes "keyMap s key = Some off" and "off \<noteq> notExist"
  shows "(run growcap s ps = Some (Ok s') \<longrightarrow> keyMap s' key = Some off)
       \<and> (add growcap s p k vs wr = Ok (r, s1) \<longrightarrow>
            keyMap s1 = keyMap s
            \<or> (keyMap s k = None \<or> keyMap s k = Some notExist)
              \<and> keyMap s1 = (keyMap s)(k \<mapsto> offset s))
       \<and> (Del s k vs = Some (Ok s2) \<longrightarrow> keyMap s2 = keyMap s)
       \<and> (DelByPrefix s k vs = Some (Ok s3) \<longrightarrow> keyMap s3 = keyMap s)"
proof (intro conjI impI)
  assume "run growcap s ps = Some (Ok s')"
  from run_keeps [OF this] assms show "keyMap s' key = Some off"
    by (simp add: keeps_def)
next
  assume "add growcap s p k vs wr = Ok (r, s1)"
  from add_keyMap [OF this]
  show "keyMap s1 = keyMap s
        \<or> (keyMap s k = None \<or> keyMap s k = Some notExist)
          \<and> keyMap s1 = (keyMap s)(k \<mapsto> offset s)"
    by blast
next
  assume "Del s k vs = Some (Ok s2)"
  then show "keyMap s2 = keyMap s" by (simp add: Del_def dels_keyMap)
next
  assume "DelByPrefix s k vs = Some (Ok s3)"
  then show "keyMap s3 = keyMap s" by (simp add: DelByPrefix_def delsPrefix_keyMap)
qed

theorem index_entry_stable_witness:
  "keyMap st_two key_u = Some 0 \<and> (0::int) \<noteq> notExist
   \<and> run exact_cap st_two ops_mixed = Some (Ok (the_ok (run exact_cap st_two ops_mixed)))
   \<and> keyMap (the_ok (run exact_cap st_two ops_mixed)) key_u = Some 0
   \<and> add exact_cap st_two None key_w [bytes_of ''z''] WriteOk
       = Ok (None, snd (the_ok (Some (add exact_cap st_two None key_w [bytes_of ''z''] WriteOk))))
   \<and> keyMap st_two key_w = None
   \<and> keyMap (snd (the_ok (Some (add exact_cap st_two None key_w [bytes_of ''z''] WriteOk))))
       = (keyMap st_two)(key_w \<mapsto> offset st_two)
   \<and> Del st_two key_u [bytes_of ''a''] = Some (Ok (the_ok (Del st_two key_u [bytes_of ''a''])))
   \<and> keyMap (the_ok (Del st_two key_u [bytes_of ''a''])) = keyMap st_two
   \<and> DelByPrefix st_two key_u [bytes_of ''b''] = Some (Ok (the_ok (DelByPrefix st_two key_u [bytes_of ''b''])))
   \<and> keyMap (the_ok (DelByPrefix st_two key_u [bytes_of ''b''])) = keyMap st_two"
proof -
  let ?A = "add exact_cap st_two None key_w [bytes_of ''z''] WriteOk"
  have h1: "keyMap st_two key_u = Some 0" by code_simp
  have h2: "(0::int) \<noteq> notExist" by (simp add: notExist_def)
  have "returned (run exact_cap st_two ops_mixed)" by code_simp
  then have h3: "run exact_cap st_two ops_mixed = Some (Ok (the_ok (run exact_cap st_two ops_mixed)))"
    by (rule returned_the_ok)
  have "returned (Some ?A)" by code_simp
  then have "Some ?A = Some (Ok (the_ok (Some ?A)))" by (rule returned_the_ok)
  moreover have "fst (the_ok (Some ?A)) = None" by code_simp
  ultimately have h4: "?A = Ok (None, snd (the_ok (Some ?A)))"
    by (metis option.inject prod.collapse)
  have h5: "keyMap st_two key_w = None" by code_simp
  have "keyMap st_two key_w \<noteq> Some 0" by (simp add: h5)
  have "returned (Del st_two key_u [bytes_of ''a''])" by code_simp
  then have h6: "Del st_two key_u [bytes_of ''a''] = Some (Ok (the_ok (Del st_two key_u [bytes_of ''a''])))"
    by (rule returned_the_ok)
  have "returned (DelByPrefix st_two key_u [bytes_of ''b''])" by code_simp
  then have h7: "DelByPrefix st_two key_u [bytes_of ''b''] = Some (Ok (the_ok (DelByPrefix st_two key_u [bytes_of ''b''])))"
    by (rule returned_the_ok)
  have ne: "keyMap (snd (the_ok (Some ?A))) key_w \<noteq> keyMap st_two key_w" by code_simp
  note t = index_entry_stable [OF h1 h2, of exact_cap ops_mixed "the_ok (run exact_cap st_two ops_mixed)"
      None key_w "[bytes_of ''z'']" WriteOk None "snd (the_ok (Some ?A))"]
  from t h3 have c1: "keyMap (the_ok (run exact_cap st_two ops_mixed)) key_u = Some 0" by blast
  from t h4 ne have c2: "keyMap (snd (the_ok (Some ?A))) = (keyMap st_two)(key_w \<mapsto> offset st_two)"
    by metis
  from index_entry_stable [OF h1 h2, of _ _ _ _ key_u "[bytes_of ''a'']" _ _ _ "the_ok (Del st_two key_u [bytes_of ''a''])"] h6
  have c3: "keyMap (the_ok (Del st_two key_u [bytes_of ''a''])) = keyMap st_two" by blast
  from index_entry_stable [OF h1 h2, of _ _ _ _ key_u "[bytes_of ''b'']" _ _ _ _ "the_ok (DelByPrefix st_two key_u [bytes_of ''b''])"] h7
  have c4: "keyMap (the_ok (DelByPrefix st_two key_u [bytes_of ''b''])) = keyMap st_two" by blast
  from h1 h2 h3 h4 h5 h6 h7 c1 c2 c3 c4 show ?thesis by blast
qed

end
